theory Spec2Isabelle
  imports
    Main
    "HOL-Library.Char_ord"
    "HOL-Library.List_Lexorder"
    "HOL-Library.Product_Lexorder"
    "HOL-Library.AList"
begin

section \<open>Strings and the platform's library functions\<close>

text \<open>
  Python strings are modelled as \<^typ>\<open>string\<close>; the model covers ASCII text, where
  \<open>str.lower\<close> changes the letters A..Z only and \<open>\d\<close> matches 0..9 only. Strings are
  compared as Python compares them: lexicographically, character by character.
\<close>

abbreviation bslash :: char where
  "bslash \<equiv> CHR 0x5C"

abbreviation fslash :: char where
  "fslash \<equiv> CHR ''/''"

definition lower_char :: "char \<Rightarrow> char" where
  "lower_char c =
     (if CHR ''A'' \<le> c \<and> c \<le> CHR ''Z'' then char_of (of_char c + (32::nat)) else c)"

definition lower :: "string \<Rightarrow> string" where
  "lower s = map lower_char s"

definition is_digit :: "char \<Rightarrow> bool" where
  "is_digit c = (CHR ''0'' \<le> c \<and> c \<le> CHR ''9'')"

definition int_of_digits :: "string \<Rightarrow> int" where
  "int_of_digits ds = foldl (\<lambda>a c. 10 * a + (int (of_char c) - 48)) 0 ds"

text \<open>\<open>s.lstrip(chars)\<close>: drop every leading character that occurs in \<open>chars\<close>.\<close>

definition lstrip :: "string \<Rightarrow> string \<Rightarrow> string" where
  "lstrip chars s = dropWhile (\<lambda>c. c \<in> set chars) s"

text \<open>\<open>s.replace(a, b)\<close> for one-character strings \<open>a\<close> and \<open>b\<close>.\<close>

definition replace_char :: "char \<Rightarrow> char \<Rightarrow> string \<Rightarrow> string" where
  "replace_char a b s = map (\<lambda>c. if c = a then b else c) s"

text \<open>\<open>s.split(sep)\<close> for a one-character separator: always at least one part.\<close>

fun split_on :: "char \<Rightarrow> string \<Rightarrow> string list" where
  "split_on c [] = [[]]"
| "split_on c (x # xs) =
     (if x = c then [] # split_on c xs
      else (x # hd (split_on c xs)) # tl (split_on c xs))"

text \<open>\<open>sep.join(parts)\<close>.\<close>

fun intercalate :: "string \<Rightarrow> string list \<Rightarrow> string" where
  "intercalate sep [] = []"
| "intercalate sep [p] = p"
| "intercalate sep (p # q # ps) = p @ sep @ intercalate sep (q # ps)"

text \<open>
  The program calls \<open>os.path\<close>, \<open>fnmatch.fnmatch\<close> and \<open>os.path.getmtime\<close>. Which
  functions these are depends on the platform (\<open>os.path\<close> is \<open>posixpath\<close> or
  \<open>ntpath\<close>), so the model takes them as a record; \<open>'m\<close> is the type of modification
  times. \<open>os_abspath\<close> has the current working directory built in.
\<close>

record 'm platform =
  os_sep :: char
  os_basename :: "string \<Rightarrow> string"
  os_join :: "string \<Rightarrow> string \<Rightarrow> string"
  os_abspath :: "string \<Rightarrow> string"
  os_relpath :: "string \<Rightarrow> string \<Rightarrow> string"
  os_splitdrive :: "string \<Rightarrow> string \<times> string"
  fn_match :: "string \<Rightarrow> string \<Rightarrow> bool"
  os_getmtime :: "string \<Rightarrow> 'm"

section \<open>Sort engine\<close>

datatype sort_mode = Sequence | ISequence | WinSequence | Name | IName | Date

definition numerical_sort :: "string \<Rightarrow> int \<times> string" where
  "numerical_sort v =
     (let parts0 = takeWhile is_digit (dropWhile (\<lambda>c. \<not> is_digit c) v)
      in if parts0 \<noteq> [] then (int_of_digits parts0, v) else (0, v))"

definition windows_explorer_sort :: "'m platform \<Rightarrow> string \<Rightarrow> string" where
  "windows_explorer_sort P v = lower (os_basename P v)"

text \<open>
  \<open>sorted(files, key=sort_map[sort_mode])\<close>: Python's sort is stable, and so is
  \<^const>\<open>sort_key\<close>.
\<close>

fun sort_files :: "('m::linorder) platform \<Rightarrow> string list \<Rightarrow> sort_mode \<Rightarrow> string list" where
  "sort_files P files Sequence = sort_key (\<lambda>x. numerical_sort (os_basename P x)) files"
| "sort_files P files ISequence = sort_key (\<lambda>x. numerical_sort (lower (os_basename P x))) files"
| "sort_files P files WinSequence = sort_key (windows_explorer_sort P) files"
| "sort_files P files Name = sort_key (\<lambda>x. os_basename P x) files"
| "sort_files P files IName = sort_key (\<lambda>x. lower (os_basename P x)) files"
| "sort_files P files Date = sort_key (\<lambda>x. os_getmtime P x) files"

section \<open>Decoration transform\<close>

datatype decoration = Unix | Windows | RelLeader | NoLeader

definition apply_decorations :: "string \<Rightarrow> decoration set \<Rightarrow> string" where
  "apply_decorations path decorations =
     (let path1 =
        (if NoLeader \<in> decorations then lstrip [CHR ''.'', fslash] (lstrip [CHR ''.'', bslash] path)
         else if RelLeader \<in> decorations then
           (if Windows \<in> decorations then [CHR ''.'', bslash] else [CHR ''.'', fslash])
             @ lstrip [CHR ''.'', fslash] (lstrip [CHR ''.'', bslash] path)
         else path)
      in if Unix \<in> decorations then replace_char bslash fslash path1
         else if Windows \<in> decorations then replace_char fslash bslash path1
         else path1)"


section \<open>Traversal walker\<close>

text \<open>
  The directory tree that \<open>os.listdir\<close> and \<open>os.path.isdir\<close> read. A \<open>Dir\<close> lists
  its children in the order the operating system enumerates them; \<open>Unreadable\<close> is a
  directory whose listing raises \<open>OSError\<close>; listing a \<open>File\<close> raises it too.
\<close>

datatype fsnode = File | Dir "(string \<times> fsnode) list" | Unreadable

fun listdir :: "fsnode \<Rightarrow> (string \<times> fsnode) list option" where
  "listdir (Dir es) = Some es"
| "listdir File = None"
| "listdir Unreadable = None"

fun isdir :: "fsnode \<Rightarrow> bool" where
  "isdir File = False"
| "isdir (Dir es) = True"
| "isdir Unreadable = True"

datatype action = Descend | Skip | Partial

datatype collect_mode = CollectAll | DirsOnly | DirsFirstLast | FilesOnly

definition on_visit_directory ::
  "string \<Rightarrow> string list \<Rightarrow> string list \<Rightarrow> int \<Rightarrow> int option \<Rightarrow> int option \<Rightarrow> action" where
  "on_visit_directory root dirs files depth max_depth prune_large_dirs =
     (if (case max_depth of None \<Rightarrow> False | Some m \<Rightarrow> depth \<ge> m) then Skip
      else if (case prune_large_dirs of None \<Rightarrow> False | Some t \<Rightarrow> int (length files) \<ge> t)
        then Partial
      else Descend)"

text \<open>
  A Python \<open>dict\<close> from directory path to file list, in insertion order:
  \<open>d[k] = v\<close> is \<^const>\<open>AList.update\<close> (replace in place, or append a new key).
\<close>

type_synonym dict = "(string \<times> string list) list"

definition setdefault :: "string \<Rightarrow> dict \<Rightarrow> dict" where
  "setdefault k d = (case map_of d k of None \<Rightarrow> d @ [(k, [])] | Some v \<Rightarrow> d)"

text \<open>\<open>d.setdefault(k, []).extend(vs)\<close>\<close>

definition setdefault_extend :: "string \<Rightarrow> string list \<Rightarrow> dict \<Rightarrow> dict" where
  "setdefault_extend k vs d =
     (case map_of d k of None \<Rightarrow> d @ [(k, vs)] | Some v \<Rightarrow> AList.update k (v @ vs) d)"

definition is_excluded :: "'m platform \<Rightarrow> string list \<Rightarrow> string \<Rightarrow> bool" where
  "is_excluded P exclude_patterns p =
     (let bn = os_basename P p in list_ex (\<lambda>pat. fn_match P bn pat) exclude_patterns)"

text \<open>
  The children of \<open>root\<close> that survive exclusion, each as the joined path \<open>fp\<close> with the
  node found there.
\<close>

definition kept_children ::
  "'m platform \<Rightarrow> string list \<Rightarrow> string \<Rightarrow> (string \<times> fsnode) list \<Rightarrow> (string \<times> fsnode) list" where
  "kept_children P pats root es =
     filter (\<lambda>(fp, n). \<not> is_excluded P pats fp) (map (\<lambda>(e, n). (os_join P root e, n)) es)"

definition visit_subdirs ::
  "('m::linorder) platform \<Rightarrow> string list \<Rightarrow> sort_mode \<Rightarrow> string \<Rightarrow> (string \<times> fsnode) list \<Rightarrow> string list" where
  "visit_subdirs P pats sort_by root es =
     sort_files P (map fst (filter (\<lambda>(fp, n). isdir n) (kept_children P pats root es))) sort_by"

definition visit_files ::
  "('m::linorder) platform \<Rightarrow> string list \<Rightarrow> sort_mode \<Rightarrow> string \<Rightarrow> (string \<times> fsnode) list \<Rightarrow> string list" where
  "visit_files P pats sort_by root es =
     sort_files P (map fst (filter (\<lambda>(fp, n). \<not> isdir n) (kept_children P pats root es))) sort_by"

text \<open>What is stored for \<open>root\<close>, by collection strategy (the part after the visit decision).\<close>

definition store_files :: "collect_mode \<Rightarrow> string \<Rightarrow> string list \<Rightarrow> dict \<Rightarrow> dict" where
  "store_files collect root files collected =
     (case collect of
        DirsOnly \<Rightarrow> collected
      | DirsFirstLast \<Rightarrow>
          (if length files > 1 then AList.update root [hd files, last files] collected
           else AList.update root files collected)
      | FilesOnly \<Rightarrow> setdefault_extend root files collected
      | CollectAll \<Rightarrow> AList.update root files collected)"

lemma kept_children_mem:
  "(fp, n) \<in> set (kept_children P pats root es) \<Longrightarrow>
     \<exists>e. (e, n) \<in> set es \<and> fp = os_join P root e \<and> \<not> is_excluded P pats fp"
  by (auto simp: kept_children_def)

lemma size_child: "(e, n) \<in> set es \<Longrightarrow> size n < size (Dir es)"
  by (induction es) auto

lemma kept_children_size:
  assumes "listdir node = Some es" and "map_of (kept_children P pats root es) fp = Some n"
  shows "size n < size node"
proof -
  from assms(1) have node: "node = Dir es" by (cases node) auto
  from assms(2) have "(fp, n) \<in> set (kept_children P pats root es)" by (rule map_of_SomeD)
  then obtain e where "(e, n) \<in> set es" using kept_children_mem by blast
  then show ?thesis unfolding node by (rule size_child)
qed

text \<open>
  \<open>recurse_dir\<close>, the closure of \<open>walk_directories\<close>; the captured variables are
  parameters and the dictionary \<open>collected\<close> is passed through. A subdirectory path is
  looked up among the children it was built from.
\<close>

function recurse_dir ::
  "('m::linorder) platform \<Rightarrow> string list \<Rightarrow> sort_mode \<Rightarrow> collect_mode \<Rightarrow> int option \<Rightarrow> int option
     \<Rightarrow> string \<Rightarrow> fsnode \<Rightarrow> int \<Rightarrow> dict \<Rightarrow> dict" where
  "recurse_dir P pats sort_by collect max_depth prune root node depth collected =
     (case listdir node of
        None \<Rightarrow> collected
      | Some es \<Rightarrow>
          (let subdirs = visit_subdirs P pats sort_by root es;
               files = visit_files P pats sort_by root es;
               action = on_visit_directory root (map (os_basename P) subdirs)
                          (map (os_basename P) files) depth max_depth prune;
               collected1 = (if collect \<noteq> FilesOnly then setdefault root collected else collected);
               files1 = (if action = Partial \<and> length files > 1 then [hd files, last files]
                         else files);
               subdirs1 = (if action = Partial then [] else subdirs);
               collected2 = store_files collect root files1 collected1
           in if action \<noteq> Skip then
                fold (\<lambda>sd acc.
                        case map_of (kept_children P pats root es) sd of
                          None \<Rightarrow> acc
                        | Some n \<Rightarrow> recurse_dir P pats sort_by collect max_depth prune sd n (depth + 1) acc)
                  subdirs1 collected2
              else collected2))"
  by pat_completeness auto
termination
  by (relation "measure (\<lambda>(P, pats, sort_by, collect, max_depth, prune, root, node, depth, collected). size node)")
    (auto simp: kept_children_size)

definition walk_directories ::
  "('m::linorder) platform \<Rightarrow> fsnode \<Rightarrow> string \<Rightarrow> string list option \<Rightarrow> sort_mode \<Rightarrow> collect_mode
     \<Rightarrow> int option \<Rightarrow> int option \<Rightarrow> int option \<Rightarrow> int option \<Rightarrow> dict" where
  "walk_directories P fs start_path_abs exclude_patterns sort_by collect collect_limit
       collect_limit_min max_depth prune_large_dirs =
     recurse_dir P (case exclude_patterns of None \<Rightarrow> [] | Some ps \<Rightarrow> ps) sort_by collect
       max_depth prune_large_dirs start_path_abs fs 0 []"

section \<open>The POSIX platform\<close>

text \<open>\<open>posixpath\<close>, function by function.\<close>

definition posix_basename :: "string \<Rightarrow> string" where
  "posix_basename p = rev (takeWhile (\<lambda>c. c \<noteq> fslash) (rev p))"

definition posix_isabs :: "string \<Rightarrow> bool" where
  "posix_isabs p = (case p of [] \<Rightarrow> False | c # cs \<Rightarrow> c = fslash)"

definition posix_join :: "string \<Rightarrow> string \<Rightarrow> string" where
  "posix_join a b =
     (if posix_isabs b then b
      else if a = [] \<or> last a = fslash then a @ b
      else a @ [fslash] @ b)"

text \<open>One round of the loop of \<open>normpath\<close> over the components.\<close>

definition norm_step :: "bool \<Rightarrow> string list \<Rightarrow> string \<Rightarrow> string list" where
  "norm_step initial_slashes new_comps seg =
     (if seg = [] \<or> seg = ''.'' then new_comps
      else if seg \<noteq> ''..'' \<or> (\<not> initial_slashes \<and> new_comps = [])
              \<or> (new_comps \<noteq> [] \<and> last new_comps = ''..'')
        then new_comps @ [seg]
      else if new_comps \<noteq> [] then butlast new_comps
      else new_comps)"

definition posix_normpath :: "string \<Rightarrow> string" where
  "posix_normpath path =
     (if path = [] then ''.''
      else
        let initial_slashes =
              (if posix_isabs path then
                 (if take 2 path = ''//'' \<and> take 3 path \<noteq> ''///'' then 2 else 1)
               else (0::nat));
            comps = foldl (norm_step (initial_slashes \<noteq> 0)) [] (split_on fslash path);
            p = replicate initial_slashes fslash @ intercalate ''/'' comps
        in if p = [] then ''.'' else p)"

definition posix_abspath :: "string \<Rightarrow> string \<Rightarrow> string" where
  "posix_abspath cwd path =
     posix_normpath (if posix_isabs path then path else posix_join cwd path)"

text \<open>\<open>os.path.commonprefix\<close> of two lists.\<close>

fun commonprefix :: "'a list \<Rightarrow> 'a list \<Rightarrow> 'a list" where
  "commonprefix (x # xs) (y # ys) = (if x = y then x # commonprefix xs ys else [])"
| "commonprefix xs ys = []"

text \<open>
  \<open>posixpath.relpath\<close>. It raises \<open>ValueError\<close> on the empty path only; the path
  adjuster calls it on results of \<open>abspath\<close>, which are never empty.
\<close>

definition posix_relpath :: "string \<Rightarrow> string \<Rightarrow> string \<Rightarrow> string" where
  "posix_relpath cwd path start =
     (let start_list = filter (\<lambda>x. x \<noteq> []) (split_on fslash (posix_abspath cwd start));
          path_list = filter (\<lambda>x. x \<noteq> []) (split_on fslash (posix_abspath cwd path));
          i = length (commonprefix start_list path_list);
          rel_list = replicate (length start_list - i) ''..'' @ drop i path_list
      in if rel_list = [] then ''.'' else foldl posix_join (hd rel_list) (tl rel_list))"

text \<open>
  \<open>fnmatch.fnmatch\<close> on POSIX for patterns built from literal characters, \<open>*\<close> and
  \<open>?\<close> (bracket expressions are not modelled: the pattern is assumed to have no \<open>[\<close>).
\<close>

fun glob_match :: "string \<Rightarrow> string \<Rightarrow> bool" where
  "glob_match [] [] = True"
| "glob_match (c # cs) [] = False"
| "glob_match [] (p # ps) = (p = CHR ''*'' \<and> glob_match [] ps)"
| "glob_match (c # cs) (p # ps) =
     (if p = CHR ''*'' then glob_match (c # cs) ps \<or> glob_match cs (p # ps)
      else if p = CHR ''?'' then glob_match cs ps
      else c = p \<and> glob_match cs ps)"

definition posix :: "string \<Rightarrow> (string \<Rightarrow> string \<Rightarrow> bool) \<Rightarrow> (string \<Rightarrow> 'm) \<Rightarrow> 'm platform" where
  "posix cwd fnm mtime =
     \<lparr> os_sep = fslash,
       os_basename = posix_basename,
       os_join = posix_join,
       os_abspath = posix_abspath cwd,
       os_relpath = posix_relpath cwd,
       os_splitdrive = (\<lambda>p. ([], p)),
       fn_match = fnm,
       os_getmtime = mtime \<rparr>"

section \<open>Vocabulary for the walker's properties\<close>

text \<open>
  The path built from \<open>start\<close> by joining the names \<open>ns\<close> one after the other, as the
  walker builds the path of a directory \<open>length ns\<close> levels below the start directory.
\<close>

definition path_from :: "'m platform \<Rightarrow> string \<Rightarrow> string list \<Rightarrow> string" where
  "path_from P start ns = foldl (os_join P) start ns"

text \<open>\<open>at_path fs ns n\<close>: following the names \<open>ns\<close> down from the node \<open>fs\<close> leads to \<open>n\<close>.\<close>

inductive at_path :: "fsnode \<Rightarrow> string list \<Rightarrow> fsnode \<Rightarrow> bool" where
  at_root: "at_path fs [] fs"
| at_child: "at_path fs ns (Dir es) \<Longrightarrow> (e, n) \<in> set es \<Longrightarrow> at_path fs (ns @ [e]) n"

definition chain_ok :: "'m platform \<Rightarrow> string list \<Rightarrow> string \<Rightarrow> string list \<Rightarrow> bool" where
  "chain_ok P pats start ns =
     (\<forall>k < length ns. \<not> is_excluded P pats (path_from P start (take (Suc k) ns)))"

definition depth_ok :: "int option \<Rightarrow> string list \<Rightarrow> bool" where
  "depth_ok max_depth ns =
     (case max_depth of None \<Rightarrow> True | Some m \<Rightarrow> ns = [] \<or> int (length ns) \<le> m)"

definition key_ok :: "'m platform \<Rightarrow> string list \<Rightarrow> fsnode \<Rightarrow> string \<Rightarrow> int option \<Rightarrow> string \<Rightarrow> bool" where
  "key_ok P pats fs start max_depth d =
     (\<exists>ns n. d = path_from P start ns \<and> at_path fs ns n \<and> chain_ok P pats start ns
        \<and> depth_ok max_depth ns)"

definition files_ok :: "'m platform \<Rightarrow> string list \<Rightarrow> string \<Rightarrow> string list \<Rightarrow> bool" where
  "files_ok P pats d fl = (\<forall>f \<in> set fl. \<not> is_excluded P pats f \<and> (\<exists>e. f = os_join P d e))"

definition walk_inv :: "'m platform \<Rightarrow> string list \<Rightarrow> fsnode \<Rightarrow> string \<Rightarrow> int option \<Rightarrow> dict \<Rightarrow> bool" where
  "walk_inv P pats fs start max_depth c =
     (\<forall>(d, fl) \<in> set c. key_ok P pats fs start max_depth d \<and> files_ok P pats d fl)"


text \<open>A POSIX platform and directory trees on which the properties are exercised.\<close>

definition demo_platform :: "nat platform" where
  "demo_platform = posix ''/'' glob_match (\<lambda>p. 0)"


definition depth_tree :: fsnode where
  "depth_tree =
     Dir [(''top.txt'', File),
          (''one'', Dir [(''b.txt'', File), (''a.txt'', File),
                         (''two'', Dir [(''deep.txt'', File)])])]"

definition tmp_tree :: fsnode where
  "tmp_tree =
     Dir [(''b.txt'', File), (''A.txt'', File),
          (''sub'', Dir [(''x.tmp'', File), (''y'', File)]),
          (''z.tmp'', Dir [(''q'', File)])]"

text \<open>
  A directory with one file whose name contains a backslash, and the content of a start
  directory that lies below a hidden directory.
\<close>

definition core_tree :: fsnode where
  "core_tree = Dir [([CHR ''a'', bslash, CHR ''c'', CHR ''o'', CHR ''r'', CHR ''e''], File)]"

definition app_tree :: fsnode where
  "app_tree = Dir [(''f'', File)]"

section \<open>Collection: secondary truncation and the path adjuster\<close>

text \<open>
  The slices of the truncation pass of \<open>collect_files\<close>: \<open>flist[:half]\<close> and
  \<open>flist[-half:]\<close> with \<open>half = max((collect_limit_min or 2) // 2, 1)\<close>.
\<close>

definition truncate_files :: "int option \<Rightarrow> string list \<Rightarrow> string list" where
  "truncate_files collect_limit_min flist =
     (let half = max ((case collect_limit_min of None \<Rightarrow> 2 | Some x \<Rightarrow> if x = 0 then 2 else x) div 2) 1;
          start_slice = take (nat half) flist;
          end_slice = drop (length flist - nat half) flist
      in start_slice @ end_slice)"

text \<open>
  The pass itself: \<open>if collect == "all" and collect_limit\<close> (a limit of \<open>None\<close> or 0 is
  falsy), then the loop over \<open>raw.items()\<close> that assigns \<open>raw[dkey]\<close>.
\<close>

definition truncate_pass :: "collect_mode \<Rightarrow> int option \<Rightarrow> int option \<Rightarrow> dict \<Rightarrow> dict" where
  "truncate_pass collect collect_limit collect_limit_min raw =
     (case collect_limit of
        None \<Rightarrow> raw
      | Some lim \<Rightarrow>
          if collect = CollectAll \<and> lim \<noteq> 0 then
            fold (\<lambda>(dkey, flist) r.
                    if int (length flist) > lim
                    then AList.update dkey (truncate_files collect_limit_min flist) r
                    else r) raw raw
          else raw)"

datatype path_style = Full | Rel | RelBase | StyleFilesOnly

datatype error = ValueError string

definition same_drive :: "'m platform \<Rightarrow> string \<Rightarrow> string \<Rightarrow> bool" where
  "same_drive P p start_path_abs =
     (lower (fst (os_splitdrive P p)) = lower (fst (os_splitdrive P start_path_abs)))"

definition cross_drive_message :: "string \<Rightarrow> string" where
  "cross_drive_message p = ''Cannot create relative path across drives: '' @ p"

text \<open>\<open>base_label if base_label else os.path.basename(start_path_abs)\<close>\<close>

definition label_of :: "'m platform \<Rightarrow> string option \<Rightarrow> string \<Rightarrow> string" where
  "label_of P base_label start_path_abs =
     (case base_label of
        None \<Rightarrow> os_basename P start_path_abs
      | Some l \<Rightarrow> if l \<noteq> [] then l else os_basename P start_path_abs)"

text \<open>The block "Convert each file path" of \<open>adjust_paths\<close>, applied to \<open>f_abs\<close>.\<close>

definition convert_file ::
  "'m platform \<Rightarrow> string \<Rightarrow> path_style \<Rightarrow> decoration set \<Rightarrow> string option \<Rightarrow> string \<Rightarrow> string" where
  "convert_file P start_path_abs path_style decorations base_label f_abs =
     (case path_style of
        StyleFilesOnly \<Rightarrow> os_basename P f_abs
      | Rel \<Rightarrow>
          if same_drive P f_abs start_path_abs
          then apply_decorations (os_relpath P f_abs start_path_abs) decorations
          else f_abs
      | RelBase \<Rightarrow>
          (let label = label_of P base_label start_path_abs
           in if same_drive P f_abs start_path_abs
              then apply_decorations (os_join P label (os_relpath P f_abs start_path_abs)) decorations
              else f_abs)
      | Full \<Rightarrow> f_abs)"

text \<open>One round of the loop over \<open>file_list\<close>: the strict cross-drive check, then the conversion.\<close>

definition adjust_file ::
  "'m platform \<Rightarrow> string \<Rightarrow> path_style \<Rightarrow> decoration set \<Rightarrow> bool \<Rightarrow> string option \<Rightarrow> string
     \<Rightarrow> error + string" where
  "adjust_file P start_path_abs path_style decorations strict_rel base_label f =
     (let f_abs = os_abspath P f
      in if strict_rel \<and> (path_style = Rel \<or> path_style = RelBase)
            \<and> \<not> same_drive P f_abs start_path_abs
         then Inl (ValueError (cross_drive_message f_abs))
         else Inr (convert_file P start_path_abs path_style decorations base_label f_abs))"

text \<open>The directory key, for \<open>dir_abs_norm\<close>, after its own strict check.\<close>

definition convert_dir_key ::
  "'m platform \<Rightarrow> string \<Rightarrow> path_style \<Rightarrow> decoration set \<Rightarrow> string option \<Rightarrow> string \<Rightarrow> string" where
  "convert_dir_key P start_path_abs path_style decorations base_label dir_abs_norm =
     (case path_style of
        StyleFilesOnly \<Rightarrow> dir_abs_norm
      | Rel \<Rightarrow>
          if same_drive P dir_abs_norm start_path_abs
          then apply_decorations (os_relpath P dir_abs_norm start_path_abs) decorations
          else dir_abs_norm
      | RelBase \<Rightarrow>
          (let label = label_of P base_label start_path_abs
           in if same_drive P dir_abs_norm start_path_abs
              then (let rel_dir = os_relpath P dir_abs_norm start_path_abs
                    in if rel_dir = ''.'' then apply_decorations label decorations
                       else apply_decorations (os_join P label rel_dir) decorations)
              else dir_abs_norm)
      | Full \<Rightarrow> dir_abs_norm)"

definition adjust_dir_key ::
  "'m platform \<Rightarrow> string \<Rightarrow> path_style \<Rightarrow> decoration set \<Rightarrow> bool \<Rightarrow> string option \<Rightarrow> string
     \<Rightarrow> error + string" where
  "adjust_dir_key P start_path_abs path_style decorations strict_rel base_label dir_abs =
     (let dir_abs_norm = os_abspath P dir_abs
      in if path_style \<noteq> StyleFilesOnly \<and> strict_rel \<and> (path_style = Rel \<or> path_style = RelBase)
            \<and> \<not> same_drive P dir_abs_norm start_path_abs
         then Inl (ValueError (cross_drive_message dir_abs_norm))
         else Inr (convert_dir_key P start_path_abs path_style decorations base_label dir_abs_norm))"

text \<open>The inner loop: the first failing file raises, and the loop stops there.\<close>

fun adjust_file_list ::
  "'m platform \<Rightarrow> string \<Rightarrow> path_style \<Rightarrow> decoration set \<Rightarrow> bool \<Rightarrow> string option \<Rightarrow> string list
     \<Rightarrow> error + string list" where
  "adjust_file_list P start_path_abs path_style decorations strict_rel base_label [] = Inr []"
| "adjust_file_list P start_path_abs path_style decorations strict_rel base_label (f # fs) =
     (case adjust_file P start_path_abs path_style decorations strict_rel base_label f of
        Inl e \<Rightarrow> Inl e
      | Inr adjusted_file \<Rightarrow>
          (case adjust_file_list P start_path_abs path_style decorations strict_rel base_label fs of
             Inl e \<Rightarrow> Inl e
           | Inr adjusted_files \<Rightarrow> Inr (adjusted_file # adjusted_files)))"

text \<open>The outer loop over \<open>collected_dict.items()\<close>, with the dictionary \<open>adjusted\<close> built so far.\<close>

fun adjust_items ::
  "'m platform \<Rightarrow> string \<Rightarrow> path_style \<Rightarrow> decoration set \<Rightarrow> bool \<Rightarrow> string option \<Rightarrow> dict \<Rightarrow> dict
     \<Rightarrow> error + dict" where
  "adjust_items P start_path_abs path_style decorations strict_rel base_label [] adjusted = Inr adjusted"
| "adjust_items P start_path_abs path_style decorations strict_rel base_label ((dir_abs, file_list) # rest) adjusted =
     (case adjust_file_list P start_path_abs path_style decorations strict_rel base_label file_list of
        Inl e \<Rightarrow> Inl e
      | Inr adjusted_files \<Rightarrow>
          (case adjust_dir_key P start_path_abs path_style decorations strict_rel base_label dir_abs of
             Inl e \<Rightarrow> Inl e
           | Inr dir_key \<Rightarrow>
               adjust_items P start_path_abs path_style decorations strict_rel base_label rest
                 (AList.update dir_key adjusted_files adjusted)))"

definition adjust_paths ::
  "'m platform \<Rightarrow> dict \<Rightarrow> string \<Rightarrow> path_style \<Rightarrow> decoration set \<Rightarrow> collect_mode \<Rightarrow> bool \<Rightarrow> string option
     \<Rightarrow> error + dict" where
  "adjust_paths P collected_dict start_path_abs path_style decorations collect strict_rel base_label =
     adjust_items P start_path_abs path_style decorations strict_rel base_label collected_dict []"

definition collect_files ::
  "('m::linorder) platform \<Rightarrow> fsnode \<Rightarrow> string \<Rightarrow> path_style \<Rightarrow> collect_mode \<Rightarrow> sort_mode
     \<Rightarrow> decoration set \<Rightarrow> string list option \<Rightarrow> int option \<Rightarrow> int option \<Rightarrow> bool \<Rightarrow> string option
     \<Rightarrow> int option \<Rightarrow> int option \<Rightarrow> error + dict" where
  "collect_files P fs start_path_abs path_style collect sort_by decorations exclude_patterns
       collect_limit collect_limit_min strict_rel base_label max_depth prune_large_dirs =
     (let raw = walk_directories P fs start_path_abs exclude_patterns sort_by collect collect_limit
                  collect_limit_min max_depth prune_large_dirs;
          raw1 = truncate_pass collect collect_limit collect_limit_min raw
      in adjust_paths P raw1 start_path_abs path_style decorations collect strict_rel base_label)"

definition ten_files_tree :: fsnode where
  "ten_files_tree =
     Dir [(''f07'', File), (''f03'', File), (''f10'', File), (''f01'', File), (''f05'', File),
          (''f02'', File), (''f09'', File), (''f04'', File), (''f08'', File), (''f06'', File),
          (''few'', Dir [(''x'', File), (''y'', File)])]"

text \<open>
  Every path of a dictionary in the order in which \<open>adjust_paths\<close> examines them: the
  files of an entry, then its directory key.
\<close>

definition entry_paths :: "dict \<Rightarrow> string list" where
  "entry_paths collected = concat (map (\<lambda>(d, fl). fl @ [d]) collected)"

text \<open>
  A platform with drive letters, for the cross-drive branch, which no POSIX path
  reaches: \<open>os_splitdrive\<close> is \<open>ntpath.splitdrive\<close> on paths without a UNC prefix, and
  \<open>os_abspath\<close> leaves a path as it is, as \<open>ntpath.abspath\<close> does on the normalised
  absolute paths used with it. The branch calls no other function of the platform.
\<close>

definition nt_splitdrive :: "string \<Rightarrow> string \<times> string" where
  "nt_splitdrive p = (if take 1 (drop 1 p) = '':'' then (take 2 p, drop 2 p) else ([], p))"

definition drive_platform :: "nat platform" where
  "drive_platform =
     (posix [] glob_match (\<lambda>p. 0))
       \<lparr> os_sep := bslash, os_abspath := (\<lambda>p. p), os_splitdrive := nt_splitdrive \<rparr>"

definition other_drive_dir :: string where
  "other_drive_dir = ''D:'' @ [bslash] @ ''data''"

definition other_drive_file :: string where
  "other_drive_file = ''D:'' @ [bslash] @ ''data'' @ [bslash] @ ''f.txt''"

definition start_drive_dir :: string where
  "start_drive_dir = ''C:'' @ [bslash] @ ''proj''"

text \<open>
  A name as \<open>os.listdir\<close> returns it on POSIX: not empty, without a slash, and neither
  \<open>.\<close> nor \<open>..\<close>.
\<close>

definition proper_name :: "string \<Rightarrow> bool" where
  "proper_name n = (n \<noteq> [] \<and> fslash \<notin> set n \<and> n \<noteq> ''.'' \<and> n \<noteq> ''..'')"

text \<open>The components of the normal form of an absolute path.\<close>

definition ncomps :: "string \<Rightarrow> string list" where
  "ncomps p = foldl (norm_step True) [] (split_on fslash p)"


text \<open>Every name listed anywhere in a directory tree.\<close>

fun all_names :: "fsnode \<Rightarrow> string list" where
  "all_names (Dir es) = concat (map (\<lambda>p. fst p # all_names (snd p)) es)"
| "all_names File = []"
| "all_names Unreadable = []"

text \<open>The relative path that \<open>posixpath.relpath\<close> gives for the names \<open>ns\<close> below the start.\<close>

definition relstr :: "string list \<Rightarrow> string" where
  "relstr ns = (if ns = [] then ''.'' else intercalate ''/'' ns)"

definition backslash_tree :: fsnode where
  "backslash_tree = Dir [(''a'', Dir [(''b'', Dir [])]), ([CHR ''a'', bslash, CHR ''b''], Dir [])]"

definition dot_tree :: fsnode where
  "dot_tree = Dir [(''.a'', Dir []), (''a'', Dir [])]"

section \<open>Tree builder and renderer\<close>

text \<open>
  The nested \<open>defaultdict\<close> of \<open>build_directory_tree\<close>: a node is the dictionary of its
  named children, in insertion order.
\<close>

datatype tree = Node "(string \<times> tree) list"

text \<open>\<open>for p in parts: current = current[p]\<close>, creating the missing nodes.\<close>

fun insert_parts :: "string list \<Rightarrow> tree \<Rightarrow> tree" where
  "insert_parts [] t = t"
| "insert_parts (p # ps) (Node kids) =
     (case map_of kids p of
        None \<Rightarrow> Node (kids @ [(p, insert_parts ps (Node []))])
      | Some sub \<Rightarrow> Node (AList.update p (insert_parts ps sub) kids))"

definition build_directory_tree :: "'m platform \<Rightarrow> dict \<Rightarrow> tree" where
  "build_directory_tree P collected =
     fold (\<lambda>(dkey, flist) root.
             if dkey \<noteq> [] then insert_parts (split_on (os_sep P) dkey) root else root)
       collected (Node [])"

text \<open>\<open>items.sort(key=lambda x: get_subdir_sort_key(x[0], sort_by))\<close>, mode by mode.\<close>

fun sort_subdirs :: "sort_mode \<Rightarrow> (string \<times> tree) list \<Rightarrow> (string \<times> tree) list" where
  "sort_subdirs Sequence items = sort_key (\<lambda>x. numerical_sort (fst x)) items"
| "sort_subdirs ISequence items = sort_key (\<lambda>x. numerical_sort (lower (fst x))) items"
| "sort_subdirs WinSequence items = sort_key (\<lambda>x. lower (fst x)) items"
| "sort_subdirs Name items = sort_key (\<lambda>x. fst x) items"
| "sort_subdirs IName items = sort_key (\<lambda>x. lower (fst x)) items"
| "sort_subdirs Date items = sort_key (\<lambda>x. fst x) items"

text \<open>The parameters of \<open>format_collected_items\<close> that the closure \<open>format_directory\<close> reads.\<close>

record render_env =
  rc_collect :: collect_mode
  rc_decorations :: "decoration set"
  rc_path_style :: path_style
  rc_sort_by :: sort_mode
  rc_indent_size :: int
  rc_compact_braces :: bool

text \<open>
  \<open>lines[-1] += "}"\<close>. On an empty list Python raises \<open>IndexError\<close>; every call
  follows an append to \<open>lines\<close>, so the list is never empty there.
\<close>

definition add_brace :: "string list \<Rightarrow> string list" where
  "add_brace lines = (if lines = [] then [] else butlast lines @ [last lines @ ''}''])"

fun tsize :: "tree \<Rightarrow> nat" where
  "tsize (Node kids) = Suc (sum_list (map (\<lambda>p. tsize (snd p)) kids))"

lemma tsize_pos: "0 < tsize t"
  by (cases t) simp

lemma sum_list_insort_key:
  "sum_list (map f (insort_key k x xs)) = (f x :: nat) + sum_list (map f xs)"
  by (induction xs) simp_all

lemma sum_list_sort_key: "sum_list (map f (sort_key k xs)) = (sum_list (map f xs) :: nat)"
  by (induction xs) (simp_all add: sum_list_insort_key)

lemma sum_list_sort_subdirs:
  "sum_list (map f (sort_subdirs m items)) = (sum_list (map f items) :: nat)"
  by (cases m) (simp_all add: sum_list_sort_key)

text \<open>
  \<open>format_directory\<close>, with the list \<open>lines\<close> passed through; \<open>format_items\<close> is its
  loop over the sorted children, \<open>rest\<close> being the children still to come (the current
  child is the last one when \<open>rest\<close> is empty).
\<close>

function format_directory ::
    "'m platform \<Rightarrow> render_env \<Rightarrow> tree \<Rightarrow> dict \<Rightarrow> string \<Rightarrow> nat \<Rightarrow> string list \<Rightarrow> string list"
  and format_items ::
    "'m platform \<Rightarrow> render_env \<Rightarrow> (string \<times> tree) list \<Rightarrow> dict \<Rightarrow> string \<Rightarrow> nat \<Rightarrow> string list
       \<Rightarrow> string list" where
  "format_directory P C (Node kids) full_map current_path level lines =
     format_items P C (sort_subdirs (rc_sort_by C) kids) full_map current_path level lines"
| "format_items P C [] full_map current_path level lines = lines"
| "format_items P C ((subdir_name, subsubtree) # rest) full_map current_path level lines =
     (let indent = replicate (nat (rc_indent_size C * int level)) (CHR '' '');
          is_last = (rest = []);
          full_path = (if current_path \<noteq> [] then os_join P current_path subdir_name
                       else subdir_name);
          dir_display = (if rc_path_style C = RelBase then subdir_name
                         else apply_decorations subdir_name (rc_decorations C));
          close = (\<lambda>ls. if rc_compact_braces C \<and> is_last then add_brace ls
                        else ls @ [indent @ ''}'']);
          files = (case map_of full_map full_path of None \<Rightarrow> [] | Some fl \<Rightarrow> fl);
          findent = indent @ replicate (nat (rc_indent_size C)) (CHR '' '');
          shown = (\<lambda>f. findent @ apply_decorations (os_basename P f) (rc_decorations C));
          has_sub = (subsubtree \<noteq> Node []);
          lines1 =
            (case rc_collect C of
               DirsOnly \<Rightarrow>
                 if has_sub then
                   close (format_directory P C subsubtree full_map full_path (level + 1)
                            (lines @ [indent @ dir_display @ '':{'']))
                 else lines @ [indent @ dir_display]
             | FilesOnly \<Rightarrow>
                 close (format_directory P C subsubtree full_map full_path (level + 1)
                          ((lines @ [indent @ ''{'']) @ map shown files))
             | DirsFirstLast \<Rightarrow>
                 (let l1 = (if has_sub \<or> current_path \<noteq> []
                            then lines @ [indent @ dir_display @ '':{'']
                            else lines @ [indent @ dir_display]);
                      l2 = (if files \<noteq> []
                            then (l1 @ [shown (hd files)])
                                   @ (if length files > 1 then [shown (last files)] else [])
                            else l1);
                      l3 = (if has_sub
                            then format_directory P C subsubtree full_map full_path (level + 1) l2
                            else l2)
                  in if has_sub \<or> current_path \<noteq> [] then close l3 else l3)
             | CollectAll \<Rightarrow>
                 (let l1 = (lines @ [indent @ dir_display @ '':{'']) @ map shown files;
                      l2 = (if has_sub
                            then format_directory P C subsubtree full_map full_path (level + 1) l1
                            else l1)
                  in close l2))
      in format_items P C rest full_map current_path level lines1)"
  by pat_completeness auto
termination
  by (relation "measure (\<lambda>x. case x of
          Inl (P, C, t, full_map, current_path, level, lines) \<Rightarrow> 2 * tsize t
        | Inr (P, C, items, full_map, current_path, level, lines) \<Rightarrow>
            2 * sum_list (map (\<lambda>p. tsize (snd p)) items) + 1)")
     (auto simp: sum_list_sort_subdirs tsize_pos)

datatype format_style = Inline | Summary

definition format_collected_items ::
  "'m platform \<Rightarrow> dict \<Rightarrow> format_style \<Rightarrow> collect_mode \<Rightarrow> decoration set \<Rightarrow> path_style \<Rightarrow> sort_mode
     \<Rightarrow> int \<Rightarrow> bool \<Rightarrow> string" where
  "format_collected_items P collected_dict fmt collect decorations path_style sort_by
       indent_size compact_braces =
     (let directory_tree = build_directory_tree P collected_dict;
          C = \<lparr> rc_collect = collect, rc_decorations = decorations, rc_path_style = path_style,
                rc_sort_by = sort_by, rc_indent_size = indent_size,
                rc_compact_braces = compact_braces \<rparr>;
          lines =
            (case fmt of
               Inline \<Rightarrow>
                 if collect = DirsOnly
                 then map (\<lambda>(dkey, flist). apply_decorations dkey decorations) collected_dict
                 else concat (map (\<lambda>(dkey, flist). map (\<lambda>f. apply_decorations f decorations) flist)
                                collected_dict)
             | Summary \<Rightarrow> format_directory P C directory_tree collected_dict [] 0 [])
      in intercalate [CHR 0x0A] lines)"

text \<open>Every segment of a tree with its nesting level, the root's children at \<open>level\<close>.\<close>

fun segments :: "tree \<Rightarrow> nat \<Rightarrow> (nat \<times> string) list" where
  "segments (Node kids) level =
     concat (map (\<lambda>p. (level, fst p) # segments (snd p) (Suc level)) kids)"



definition items_weight :: "(string \<times> tree) list \<Rightarrow> nat" where
  "items_weight items = sum_list (map (\<lambda>p. tsize (snd p)) items)"




text \<open>
  Where the lines of the rendered text come from. \<open>dict_files\<close> is every file of a map.
  \<open>summary_line P C names files l\<close>: the line \<open>l\<close> of a summary is some indentation,
  then a brace, or a name of \<open>names\<close> as the renderer displays it (alone or followed by
  the opening of a block), or the decorated basename of a file of \<open>files\<close>, and then
  the closing braces that compact mode has appended. \<open>inline_line decs collected l\<close>:
  the line \<open>l\<close> of an inline listing is a decorated key or a decorated file of the map.
\<close>

definition dict_files :: "dict \<Rightarrow> string set" where
  "dict_files collected = (\<Union>p \<in> set collected. set (snd p))"

definition summary_line :: "'m platform \<Rightarrow> render_env \<Rightarrow> string set \<Rightarrow> string set \<Rightarrow> string \<Rightarrow> bool" where
  "summary_line P C names files l =
     (\<exists>n body k. l = replicate n (CHR '' '') @ body @ replicate k (CHR ''}'')
        \<and> (body = ''}'' \<or> body = ''{''
           \<or> (\<exists>nm \<in> names. \<exists>sfx. (sfx = [] \<or> sfx = '':{'')
                 \<and> body = (if rc_path_style C = RelBase then nm
                            else apply_decorations nm (rc_decorations C)) @ sfx)
           \<or> (\<exists>f \<in> files. body = apply_decorations (os_basename P f) (rc_decorations C))))"

definition inline_line :: "decoration set \<Rightarrow> dict \<Rightarrow> string \<Rightarrow> bool" where
  "inline_line decorations collected l =
     (\<exists>p \<in> set collected. l = apply_decorations (fst p) decorations
        \<or> (\<exists>f \<in> set (snd p). l = apply_decorations f decorations))"

section \<open>Properties of the sort engine and of the decoration transform\<close>

text \<open>
  C10. For every list of paths, sorting in mode \<open>winsequence\<close> gives the same list as
  sorting in mode \<open>iname\<close>: both keys are the lowercased basename.
\<close>

theorem winsequence_is_iname:
  "sort_files P files WinSequence = sort_files P files IName"
proof -
  have "windows_explorer_sort P = (\<lambda>x. lower (os_basename P x))"
    by (rule ext) (simp add: windows_explorer_sort_def)
  then show ?thesis by simp
qed

text \<open>
  C7. \<open>no-leader\<close> is documented to remove a leading dot-slash or dot-backslash
  marker. The code strips every leading character that is a dot or a backslash, and then
  every leading character that is a dot or a slash, so it removes leading dots that are
  no prefix marker: \<open>..config/file\<close> loses both dots and the hidden file
  \<open>.gitignore\<close> loses its dot.
\<close>

theorem no_leader_strips_dots:
  "apply_decorations ''..config/file'' {NoLeader} = ''config/file''
   \<and> apply_decorations ''.gitignore'' {NoLeader} = ''gitignore''
   \<and> apply_decorations ''./a'' {NoLeader} = ''a''"
  by (simp add: apply_decorations_def lstrip_def)


section \<open>Properties of the walker\<close>

declare recurse_dir.simps [simp del]

lemma set_sort_files [simp]: "set (sort_files P xs m) = set xs"
  by (cases m) simp_all

lemma length_sort_files [simp]: "length (sort_files P xs m) = length xs"
  by (cases m) simp_all

lemma set_update_cases:
  "x \<in> set (AList.update k v al) \<Longrightarrow> x = (k, v) \<or> x \<in> set al"
  by (induction al) (auto split: if_splits)

lemma set_setdefault_cases:
  "x \<in> set (setdefault k d) \<Longrightarrow> x = (k, []) \<or> x \<in> set d"
  by (auto simp: setdefault_def split: option.splits)

lemma set_setdefault_extend_cases:
  "x \<in> set (setdefault_extend k vs d) \<Longrightarrow>
     x \<in> set d \<or> x = (k, vs) \<or> (\<exists>v. (k, v) \<in> set d \<and> x = (k, v @ vs))"
  by (auto simp: setdefault_extend_def split: option.splits dest: set_update_cases map_of_SomeD)

lemma update_setdefault: "AList.update k v (setdefault k d) = AList.update k v d"
  by (induction d) (auto simp: setdefault_def split: option.splits if_splits)

lemma files_ok_append: "files_ok P pats d xs \<Longrightarrow> files_ok P pats d ys \<Longrightarrow> files_ok P pats d (xs @ ys)"
  by (auto simp: files_ok_def)

lemma files_ok_subset: "files_ok P pats d xs \<Longrightarrow> set ys \<subseteq> set xs \<Longrightarrow> files_ok P pats d ys"
  by (auto simp: files_ok_def)

lemma walk_inv_store:
  assumes "walk_inv P pats fs start md c" "key_ok P pats fs start md root" "files_ok P pats root files"
  shows "walk_inv P pats fs start md (store_files collect root files c)"
proof (cases collect)
  case CollectAll
  then show ?thesis using assms
    by (auto simp: store_files_def walk_inv_def dest!: set_update_cases)
next
  case DirsOnly
  then show ?thesis using assms by (simp add: store_files_def)
next
  case DirsFirstLast
  have "files_ok P pats root [hd files, last files]" if "1 < length files"
    using that assms(3) by (intro files_ok_subset[OF assms(3)]) (cases files; auto)
  then show ?thesis using assms DirsFirstLast
    by (auto simp: store_files_def walk_inv_def dest!: set_update_cases)
next
  case FilesOnly
  show ?thesis unfolding walk_inv_def
  proof (clarify)
    fix d fl assume "(d, fl) \<in> set (store_files collect root files c)"
    then consider "(d, fl) \<in> set c" | "(d, fl) = (root, files)" | v where "(root, v) \<in> set c" "(d, fl) = (root, v @ files)"
      using FilesOnly by (auto simp: store_files_def dest!: set_setdefault_extend_cases)
    then show "key_ok P pats fs start md d \<and> files_ok P pats d fl"
    proof cases
      case 1 then show ?thesis using assms(1) by (auto simp: walk_inv_def)
    next
      case 2 then show ?thesis using assms by simp
    next
      case 3
      then have "files_ok P pats root v" using assms(1) by (auto simp: walk_inv_def)
      then show ?thesis using 3 assms by (simp add: files_ok_append)
    qed
  qed
qed

lemma walk_inv_setdefault:
  assumes "walk_inv P pats fs start md c" "key_ok P pats fs start md root"
  shows "walk_inv P pats fs start md (setdefault root c)"
  using assms by (auto simp: walk_inv_def files_ok_def dest!: set_setdefault_cases)

lemma visit_files_ok: "files_ok P pats root (visit_files P pats sb root es)"
  by (auto simp: files_ok_def visit_files_def dest!: kept_children_mem)

lemma fold_inv:
  assumes "I acc" and "\<And>x a. x \<in> set xs \<Longrightarrow> I a \<Longrightarrow> I (f x a)"
  shows "I (fold f xs acc)"
  using assms by (induction xs arbitrary: acc) auto

lemma not_skip_depth:
  "on_visit_directory root ds fs depth md pr \<noteq> Skip \<Longrightarrow> md = Some m \<Longrightarrow> depth < m"
  by (auto simp: on_visit_directory_def split: if_splits)

lemma path_from_snoc: "path_from P start (ns @ [e]) = os_join P (path_from P start ns) e"
  by (simp add: path_from_def)

lemma chain_ok_snoc:
  assumes "chain_ok P pats start ns" "\<not> is_excluded P pats (path_from P start (ns @ [e]))"
  shows "chain_ok P pats start (ns @ [e])"
  unfolding chain_ok_def
proof (intro allI impI)
  fix k assume "k < length (ns @ [e])"
  then consider "k < length ns" | "k = length ns" by fastforce
  then show "\<not> is_excluded P pats (path_from P start (take (Suc k) (ns @ [e])))"
  proof cases
    case 1 then show ?thesis using assms(1) by (simp add: chain_ok_def)
  next
    case 2 then show ?thesis using assms(2) by simp
  qed
qed

lemma recurse_dir_inv:
  assumes "walk_inv P pats fs start md c"
    and "root = path_from P start ns" and "at_path fs ns node"
    and "chain_ok P pats start ns" and "depth = int (length ns)" and "depth_ok md ns"
  shows "walk_inv P pats fs start md (recurse_dir P pats sb collect md prune root node depth c)"
  using assms
proof (induction P pats sb collect md prune root node depth c arbitrary: ns rule: recurse_dir.induct)
  case (1 P pats sb collect md prune root node depth c)
  have kroot: "key_ok P pats fs start md root"
    using "1.prems" by (auto simp: key_ok_def)
  show ?case
  proof (cases "listdir node")
    case None
    then show ?thesis using "1.prems"(1) by (simp add: recurse_dir.simps)
  next
    case (Some es)
    then have node: "node = Dir es" by (cases node) auto
    define subdirs where "subdirs = visit_subdirs P pats sb root es"
    define files where "files = visit_files P pats sb root es"
    define act where "act = on_visit_directory root (map (os_basename P) subdirs)
                          (map (os_basename P) files) depth md prune"
    define c1 where "c1 = (if collect \<noteq> FilesOnly then setdefault root c else c)"
    define files1 where "files1 = (if act = Partial \<and> length files > 1 then [hd files, last files] else files)"
    define subdirs1 where "subdirs1 = (if act = Partial then [] else subdirs)"
    define c2 where "c2 = store_files collect root files1 c1"
    define step where "step = (\<lambda>sd acc. case map_of (kept_children P pats root es) sd of
                          None \<Rightarrow> acc
                        | Some n \<Rightarrow> recurse_dir P pats sb collect md prune sd n (depth + 1) acc)"
    have eq: "recurse_dir P pats sb collect md prune root node depth c =
        (if act \<noteq> Skip then fold step subdirs1 c2 else c2)"
      by (simp add: recurse_dir.simps[of _ _ _ _ _ _ _ node] Some Let_def subdirs_def files_def act_def
          c1_def files1_def subdirs1_def c2_def step_def)
    have fok: "files_ok P pats root files" unfolding files_def by (rule visit_files_ok)
    have "files_ok P pats root files1"
      by (rule files_ok_subset[OF fok]) (cases files; auto simp: files1_def)
    moreover have "walk_inv P pats fs start md c1"
      using "1.prems"(1) kroot by (simp add: c1_def walk_inv_setdefault)
    ultimately have inv2: "walk_inv P pats fs start md c2"
      unfolding c2_def using kroot by (intro walk_inv_store)
    show ?thesis
    proof (cases "act = Skip")
      case True
      then show ?thesis using inv2 eq by simp
    next
      case False
      have "walk_inv P pats fs start md (fold step subdirs1 c2)"
      proof (rule fold_inv[where I = "walk_inv P pats fs start md"])
        show "walk_inv P pats fs start md c2" by (rule inv2)
      next
        fix sd a assume sd: "sd \<in> set subdirs1" and a: "walk_inv P pats fs start md a"
        show "walk_inv P pats fs start md (step sd a)"
        proof (cases "map_of (kept_children P pats root es) sd")
          case None
          then show ?thesis using a by (simp add: step_def)
        next
          case (Some n)
          then have "(sd, n) \<in> set (kept_children P pats root es)" by (rule map_of_SomeD)
          then obtain e where e: "(e, n) \<in> set es" "sd = os_join P root e" "\<not> is_excluded P pats sd"
            using kept_children_mem by blast
          have p: "sd = path_from P start (ns @ [e])"
            using e(2) "1.prems"(2) by (simp add: path_from_snoc)
          have at: "at_path fs (ns @ [e]) n"
            using "1.prems"(3) e(1) unfolding node by (rule at_child)
          have ch: "chain_ok P pats start (ns @ [e])"
            using "1.prems"(4) e(3) p by (intro chain_ok_snoc) auto
          have dp: "depth + 1 = int (length (ns @ [e]))" using "1.prems"(5) by simp
          have dk: "depth_ok md (ns @ [e])"
          proof (cases md)
            case None then show ?thesis by (simp add: depth_ok_def)
          next
            case (Some m)
            have "depth < m" using False Some unfolding act_def by (rule not_skip_depth)
            then show ?thesis using Some "1.prems"(5) by (simp add: depth_ok_def)
          qed
          have "walk_inv P pats fs start md (recurse_dir P pats sb collect md prune sd n (depth + 1) a)"
            using "1.IH"[OF \<open>listdir node = Some es\<close> subdirs_def files_def act_def c1_def files1_def
                subdirs1_def c2_def False sd Some a p at ch dp dk] .
          then show ?thesis using Some by (simp add: step_def)
        qed
      qed
      then show ?thesis using False eq by simp
    qed
  qed
qed

lemma walk_directories_inv:
  "walk_inv P (case excl of None \<Rightarrow> [] | Some ps \<Rightarrow> ps) fs start md
     (walk_directories P fs start excl sb collect cl clm md prune)"
  unfolding walk_directories_def
proof (rule recurse_dir_inv[where ns = "[]"])
  show "walk_inv P (case excl of None \<Rightarrow> [] | Some ps \<Rightarrow> ps) fs start md []"
    by (simp add: walk_inv_def)
qed (simp_all add: path_from_def at_root chain_ok_def depth_ok_def split: option.splits)

lemma chain_ok_last:
  assumes "chain_ok P pats start ns" and "ns \<noteq> []"
  shows "\<not> is_excluded P pats (path_from P start ns)"
proof -
  from assms(2) have "length ns - 1 < length ns" by simp
  with assms(1) have "\<not> is_excluded P pats (path_from P start (take (Suc (length ns - 1)) ns))"
    unfolding chain_ok_def by blast
  then show ?thesis using assms(2) by simp
qed

lemma recurse_dir_Dir_skip:
  assumes "on_visit_directory root (map (os_basename P) (visit_subdirs P pats sb root es))
             (map (os_basename P) (visit_files P pats sb root es)) depth md prune = Skip"
  shows "recurse_dir P pats sb CollectAll md prune root (Dir es) depth c =
           AList.update root (visit_files P pats sb root es) c"
  using assms
  by (simp add: recurse_dir.simps[of _ _ _ _ _ _ _ "Dir es"] Let_def store_files_def update_setdefault)




section \<open>From the walker's map to the adjusted map\<close>

text \<open>The keys of the walker's map only grow, and a directory that can be listed is recorded.\<close>

lemma keys_setdefault: "fst ` set (setdefault k d) = insert k (fst ` set d)"
proof (cases "map_of d k")
  case None
  then show ?thesis by (simp add: setdefault_def)
next
  case (Some v)
  then have "(k, v) \<in> set d" by (rule map_of_SomeD)
  then have "k \<in> fst ` set d" by force
  then show ?thesis using Some by (auto simp: setdefault_def)
qed

lemma keys_setdefault_extend: "fst ` set (setdefault_extend k vs d) = insert k (fst ` set d)"
  by (cases "map_of d k") (simp_all add: setdefault_extend_def dom_update)

lemma keys_store_files: "fst ` set c \<subseteq> fst ` set (store_files collect root files c)"
  by (cases collect) (auto simp: store_files_def dom_update keys_setdefault_extend)

lemma root_stored:
  "root \<in> fst ` set (store_files collect root files
                       (if collect \<noteq> FilesOnly then setdefault root c else c))"
  by (cases collect) (simp_all add: store_files_def dom_update keys_setdefault_extend keys_setdefault)

lemma recurse_dir_keeps_keys:
  "fst ` set c \<subseteq> fst ` set (recurse_dir P pats sb collect md prune root node depth c)"
proof (induction P pats sb collect md prune root node depth c rule: recurse_dir.induct)
  case (1 P pats sb collect md prune root node depth c)
  show ?case
  proof (cases "listdir node")
    case None
    then show ?thesis by (simp add: recurse_dir.simps)
  next
    case (Some es)
    define subdirs where "subdirs = visit_subdirs P pats sb root es"
    define files where "files = visit_files P pats sb root es"
    define act where "act = on_visit_directory root (map (os_basename P) subdirs)
                          (map (os_basename P) files) depth md prune"
    define c1 where "c1 = (if collect \<noteq> FilesOnly then setdefault root c else c)"
    define files1 where "files1 = (if act = Partial \<and> length files > 1 then [hd files, last files] else files)"
    define subdirs1 where "subdirs1 = (if act = Partial then [] else subdirs)"
    define c2 where "c2 = store_files collect root files1 c1"
    define step where "step = (\<lambda>sd acc. case map_of (kept_children P pats root es) sd of
                          None \<Rightarrow> acc
                        | Some n \<Rightarrow> recurse_dir P pats sb collect md prune sd n (depth + 1) acc)"
    have eq: "recurse_dir P pats sb collect md prune root node depth c =
        (if act \<noteq> Skip then fold step subdirs1 c2 else c2)"
      by (simp add: recurse_dir.simps[of _ _ _ _ _ _ _ node] Some Let_def subdirs_def files_def act_def
          c1_def files1_def subdirs1_def c2_def step_def)
    have "fst ` set c \<subseteq> fst ` set c1" by (auto simp: c1_def keys_setdefault)
    then have k2: "fst ` set c \<subseteq> fst ` set c2"
      unfolding c2_def using keys_store_files[of c1 collect root files1] by blast
    show ?thesis
    proof (cases "act = Skip")
      case True
      then show ?thesis using k2 eq by simp
    next
      case False
      have "fst ` set c \<subseteq> fst ` set (fold step subdirs1 c2)"
      proof (rule fold_inv[where I = "\<lambda>a::dict. fst ` set c \<subseteq> fst ` set a"])
        show "fst ` set c \<subseteq> fst ` set c2" by (rule k2)
      next
        fix sd and a :: dict
        assume sd: "sd \<in> set subdirs1" and a: "fst ` set c \<subseteq> fst ` set a"
        show "fst ` set c \<subseteq> fst ` set (step sd a)"
        proof (cases "map_of (kept_children P pats root es) sd")
          case None
          then show ?thesis using a by (simp add: step_def)
        next
          case (Some n)
          have "fst ` set a \<subseteq> fst ` set (recurse_dir P pats sb collect md prune sd n (depth + 1) a)"
            using "1.IH"[OF \<open>listdir node = Some es\<close> subdirs_def files_def act_def c1_def files1_def
                subdirs1_def c2_def False sd Some] .
          then show ?thesis using Some a by (auto simp: step_def)
        qed
      qed
      then show ?thesis using False eq by simp
    qed
  qed
qed

lemma recurse_dir_records_root:
  "root \<in> fst ` set (recurse_dir P pats sb collect md prune root (Dir es) depth c)"
proof -
  define subdirs where "subdirs = visit_subdirs P pats sb root es"
  define files where "files = visit_files P pats sb root es"
  define act where "act = on_visit_directory root (map (os_basename P) subdirs)
                        (map (os_basename P) files) depth md prune"
  define files1 where "files1 = (if act = Partial \<and> length files > 1 then [hd files, last files] else files)"
  define subdirs1 where "subdirs1 = (if act = Partial then [] else subdirs)"
  define c2 where "c2 = store_files collect root files1
                          (if collect \<noteq> FilesOnly then setdefault root c else c)"
  define step where "step = (\<lambda>sd acc. case map_of (kept_children P pats root es) sd of
                        None \<Rightarrow> acc
                      | Some n \<Rightarrow> recurse_dir P pats sb collect md prune sd n (depth + 1) acc)"
  have eq: "recurse_dir P pats sb collect md prune root (Dir es) depth c =
      (if act \<noteq> Skip then fold step subdirs1 c2 else c2)"
    by (simp add: recurse_dir.simps[of _ _ _ _ _ _ _ "Dir es"] Let_def subdirs_def files_def act_def
        files1_def subdirs1_def c2_def step_def)
  have r2: "root \<in> fst ` set c2" unfolding c2_def by (rule root_stored)
  have "root \<in> fst ` set (fold step subdirs1 c2)"
  proof (rule fold_inv[where I = "\<lambda>a::dict. root \<in> fst ` set a"])
    show "root \<in> fst ` set c2" by (rule r2)
  next
    fix sd and a :: dict
    assume a: "root \<in> fst ` set a"
    show "root \<in> fst ` set (step sd a)"
    proof (cases "map_of (kept_children P pats root es) sd")
      case None
      then show ?thesis using a by (simp add: step_def)
    next
      case (Some n)
      then show ?thesis
        using a recurse_dir_keeps_keys[of a P pats sb collect md prune sd n "depth + 1"]
        by (auto simp: step_def)
    qed
  qed
  then show ?thesis using r2 eq by simp
qed

lemma walk_records_start:
  "start \<in> fst ` set (walk_directories P (Dir es) start excl sb collect cl clm md prune)"
  unfolding walk_directories_def by (rule recurse_dir_records_root)

text \<open>
  The truncation pass keeps every key, with its list or a part of it; the adjuster, when it
  returns a map, has produced each of its entries from one entry of its input: the key by
  \<open>convert_dir_key\<close> and the files by \<open>convert_file\<close>, both applied to absolute paths.
\<close>

lemma truncate_files_subset: "set (truncate_files clm fl) \<subseteq> set fl"
  by (auto simp: truncate_files_def Let_def dest: in_set_takeD in_set_dropD)

lemma truncate_pass_provenance:
  assumes "(d, fl') \<in> set (truncate_pass collect cl clm raw)"
  shows "\<exists>fl. (d, fl) \<in> set raw \<and> set fl' \<subseteq> set fl"
proof -
  define I where "I = (\<lambda>r::dict. \<forall>d fl'. (d, fl') \<in> set r \<longrightarrow> (\<exists>fl. (d, fl) \<in> set raw \<and> set fl' \<subseteq> set fl))"
  define step where "step = (\<lambda>(dkey :: string, flist :: string list) (r :: dict).
                    if int (length flist) > the cl
                    then AList.update dkey (truncate_files clm flist) r
                    else r)"
  have I0: "I raw" unfolding I_def by blast
  have "I (fold step raw raw)"
  proof (rule fold_inv[where I = I])
    show "I raw" by (rule I0)
  next
    fix x and a :: dict
    assume x: "x \<in> set raw" and a: "I a"
    obtain dkey flist where xe: "x = (dkey, flist)" by (cases x)
    show "I (step x a)"
    proof (cases "int (length flist) > the cl")
      case True
      have "\<exists>fl. (d, fl) \<in> set raw \<and> set fl' \<subseteq> set fl"
        if "(d, fl') \<in> set (AList.update dkey (truncate_files clm flist) a)" for d fl'
      proof -
        from set_update_cases[OF that]
        consider "(d, fl') = (dkey, truncate_files clm flist)" | "(d, fl') \<in> set a" by blast
        then show ?thesis
        proof cases
          case 1
          then show ?thesis using x xe truncate_files_subset[of clm flist] by auto
        next
          case 2
          then show ?thesis using a unfolding I_def by blast
        qed
      qed
      then show ?thesis using True unfolding xe step_def I_def by simp
    next
      case False
      then show ?thesis using a unfolding xe step_def by simp
    qed
  qed
  then have "I (truncate_pass collect cl clm raw)"
    using I0 by (auto simp: truncate_pass_def step_def split: option.splits)
  then show ?thesis using assms unfolding I_def by blast
qed

lemma adjust_file_list_Inr:
  "adjust_file_list P start st decs strict bl fl = Inr afs \<Longrightarrow>
     afs = map (\<lambda>f. convert_file P start st decs bl (os_abspath P f)) fl"
  by (induction fl arbitrary: afs) (auto simp: adjust_file_def Let_def split: sum.splits if_splits)

lemma adjust_dir_key_Inr:
  "adjust_dir_key P start st decs strict bl d = Inr k \<Longrightarrow>
     k = convert_dir_key P start st decs bl (os_abspath P d)"
  by (auto simp: adjust_dir_key_def Let_def split: if_splits)

lemma adjust_items_provenance:
  assumes "adjust_items P start st decs strict bl items acc = Inr adj" and "(k, afs) \<in> set adj"
  shows "(k, afs) \<in> set acc
     \<or> (\<exists>d fl. (d, fl) \<in> set items
           \<and> k = convert_dir_key P start st decs bl (os_abspath P d)
           \<and> afs = map (\<lambda>f. convert_file P start st decs bl (os_abspath P f)) fl)"
  using assms
proof (induction items arbitrary: acc)
  case Nil
  then show ?case by simp
next
  case (Cons it items)
  obtain d fl where it: "it = (d, fl)" by (cases it)
  from Cons.prems(1) obtain afs0 k0
    where f0: "adjust_file_list P start st decs strict bl fl = Inr afs0"
      and k0: "adjust_dir_key P start st decs strict bl d = Inr k0"
      and r0: "adjust_items P start st decs strict bl items (AList.update k0 afs0 acc) = Inr adj"
    unfolding it by (auto split: sum.splits)
  from Cons.IH[OF r0 Cons.prems(2)]
  consider "(k, afs) \<in> set (AList.update k0 afs0 acc)"
    | "\<exists>d fl. (d, fl) \<in> set items
           \<and> k = convert_dir_key P start st decs bl (os_abspath P d)
           \<and> afs = map (\<lambda>f. convert_file P start st decs bl (os_abspath P f)) fl"
    by blast
  then show ?case
  proof cases
    case 1
    from set_update_cases[OF 1] consider "(k, afs) = (k0, afs0)" | "(k, afs) \<in> set acc" by blast
    then show ?thesis
    proof cases
      case 1
      then show ?thesis
        using adjust_file_list_Inr[OF f0] adjust_dir_key_Inr[OF k0] unfolding it by auto
    next
      case 2
      then show ?thesis by simp
    qed
  next
    case 2
    then show ?thesis by auto
  qed
qed

lemma collect_files_provenance:
  assumes "collect_files P fs start st collect sb decs excl cl clm strict bl md prune = Inr adjusted"
    and "(k, afs) \<in> set adjusted"
  shows "\<exists>d fl fl'. (d, fl) \<in> set (walk_directories P fs start excl sb collect cl clm md prune)
           \<and> set fl' \<subseteq> set fl
           \<and> k = convert_dir_key P start st decs bl (os_abspath P d)
           \<and> afs = map (\<lambda>f. convert_file P start st decs bl (os_abspath P f)) fl'"
proof -
  define raw where "raw = walk_directories P fs start excl sb collect cl clm md prune"
  from assms(1) have "adjust_items P start st decs strict bl (truncate_pass collect cl clm raw) [] = Inr adjusted"
    by (simp add: collect_files_def adjust_paths_def raw_def)
  from adjust_items_provenance[OF this assms(2)]
  obtain d fl' where m: "(d, fl') \<in> set (truncate_pass collect cl clm raw)"
    and k: "k = convert_dir_key P start st decs bl (os_abspath P d)"
    and a: "afs = map (\<lambda>f. convert_file P start st decs bl (os_abspath P f)) fl'"
    by auto
  from truncate_pass_provenance[OF m] obtain fl where "(d, fl) \<in> set raw" "set fl' \<subseteq> set fl"
    by blast
  then show ?thesis using k a unfolding raw_def by blast
qed

text \<open>
  The tree builder: every node of the tree carries a component of a key of the map it
  was built from, at the level of that component in the key.
\<close>

lemma segments_append:
  "segments (Node (xs @ ys)) lvl = segments (Node xs) lvl @ segments (Node ys) lvl"
  by simp

lemma segments_update_mem:
  assumes "x \<in> set (segments (Node (AList.update p t kids)) lvl)"
  shows "x \<in> set (segments (Node kids) lvl) \<or> x = (lvl, p) \<or> x \<in> set (segments t (Suc lvl))"
  using assms
proof (induction kids)
  case Nil
  then show ?case by auto
next
  case (Cons a kids)
  then show ?case by (cases a) (auto split: if_splits)
qed

lemma insert_parts_segments:
  assumes "x \<in> set (segments (insert_parts ps t) lvl)"
  shows "x \<in> set (segments t lvl) \<or> (\<exists>i < length ps. x = (lvl + i, ps ! i))"
  using assms
proof (induction ps arbitrary: t lvl)
  case Nil
  then show ?case by simp
next
  case (Cons p ps)
  obtain kids where t: "t = Node kids" by (cases t)
  show ?case
  proof (cases "map_of kids p")
    case None
    with Cons.prems have "x \<in> set (segments (Node kids) lvl) \<or> x = (lvl, p)
        \<or> x \<in> set (segments (insert_parts ps (Node [])) (Suc lvl))"
      unfolding t by auto
    then consider "x \<in> set (segments t lvl)" | "x = (lvl, p)"
      | "x \<in> set (segments (insert_parts ps (Node [])) (Suc lvl))"
      unfolding t by blast
    then show ?thesis
    proof cases
      case 1 then show ?thesis by simp
    next
      case 2 then show ?thesis by auto
    next
      case 3
      from Cons.IH[OF 3] obtain i where "i < length ps" "x = (Suc lvl + i, ps ! i)" by auto
      then have "Suc i < length (p # ps) \<and> x = (lvl + Suc i, (p # ps) ! Suc i)" by simp
      then show ?thesis by blast
    qed
  next
    case (Some sub)
    then have sub: "(p, sub) \<in> set kids" by (rule map_of_SomeD)
    from Some Cons.prems have "x \<in> set (segments (Node (AList.update p (insert_parts ps sub) kids)) lvl)"
      unfolding t by simp
    from segments_update_mem[OF this]
    consider "x \<in> set (segments t lvl)" | "x = (lvl, p)"
      | "x \<in> set (segments (insert_parts ps sub) (Suc lvl))"
      unfolding t by blast
    then show ?thesis
    proof cases
      case 1 then show ?thesis by simp
    next
      case 2 then show ?thesis by auto
    next
      case 3
      from Cons.IH[OF 3]
      consider "x \<in> set (segments sub (Suc lvl))"
        | i where "i < length ps" "x = (Suc lvl + i, ps ! i)" by auto
      then show ?thesis
      proof cases
        case 1
        then have "x \<in> set (segments t lvl)" using sub unfolding t by force
        then show ?thesis by simp
      next
        case 2
        then have "Suc i < length (p # ps) \<and> x = (lvl + Suc i, (p # ps) ! Suc i)" by simp
        then show ?thesis by blast
      qed
    qed
  qed
qed

lemma build_directory_tree_segments:
  assumes "(lvl, seg) \<in> set (segments (build_directory_tree P collected) 0)"
  shows "\<exists>k fl. (k, fl) \<in> set collected \<and> lvl < length (split_on (os_sep P) k)
           \<and> seg = split_on (os_sep P) k ! lvl"
proof -
  define I where "I = (\<lambda>t. \<forall>lvl seg. (lvl, seg) \<in> set (segments t 0) \<longrightarrow>
      (\<exists>k fl. (k, fl) \<in> set collected \<and> lvl < length (split_on (os_sep P) k)
           \<and> seg = split_on (os_sep P) k ! lvl))"
  define step where "step = (\<lambda>(dkey, flist :: string list) root.
             if dkey \<noteq> [] then insert_parts (split_on (os_sep P) dkey) root else root)"
  have "I (fold step collected (Node []))"
  proof (rule fold_inv[where I = I])
    show "I (Node [])" by (simp add: I_def)
  next
    fix x and t :: tree
    assume x: "x \<in> set collected" and t: "I t"
    obtain dkey flist where xe: "x = (dkey, flist)" by (cases x)
    show "I (step x t)"
    proof (cases "dkey = []")
      case True
      then show ?thesis using t by (simp add: xe step_def)
    next
      case False
      have "\<exists>k fl. (k, fl) \<in> set collected \<and> lvl < length (split_on (os_sep P) k)
           \<and> seg = split_on (os_sep P) k ! lvl"
        if "(lvl, seg) \<in> set (segments (insert_parts (split_on (os_sep P) dkey) t) 0)" for lvl seg
      proof -
        from insert_parts_segments[OF that]
        consider "(lvl, seg) \<in> set (segments t 0)"
          | i where "i < length (split_on (os_sep P) dkey)" "(lvl, seg) = (0 + i, split_on (os_sep P) dkey ! i)"
          by blast
        then show ?thesis
        proof cases
          case 1 then show ?thesis using t unfolding I_def by blast
        next
          case 2 then show ?thesis using x xe by auto
        qed
      qed
      then show ?thesis using False unfolding xe step_def I_def by simp
    qed
  qed
  then show ?thesis using assms unfolding I_def build_directory_tree_def step_def by blast
qed

section \<open>Properties of the secondary truncation\<close>

lemma distinct_setdefault:
  "distinct (map fst d) \<Longrightarrow> distinct (map fst (setdefault k d))"
  by (auto simp: setdefault_def map_of_eq_None_iff split: option.splits)

lemma distinct_setdefault_extend:
  "distinct (map fst d) \<Longrightarrow> distinct (map fst (setdefault_extend k vs d))"
  by (auto simp: setdefault_extend_def map_of_eq_None_iff distinct_update split: option.splits)

lemma distinct_store_files:
  "distinct (map fst c) \<Longrightarrow> distinct (map fst (store_files collect root files c))"
  by (cases collect) (simp_all add: store_files_def distinct_update distinct_setdefault_extend)

lemma recurse_dir_distinct:
  "distinct (map fst c) \<Longrightarrow>
     distinct (map fst (recurse_dir P pats sb collect md prune root node depth c))"
proof (induction P pats sb collect md prune root node depth c rule: recurse_dir.induct)
  case (1 P pats sb collect md prune root node depth c)
  show ?case
  proof (cases "listdir node")
    case None
    then show ?thesis using "1.prems" by (simp add: recurse_dir.simps)
  next
    case (Some es)
    define subdirs where "subdirs = visit_subdirs P pats sb root es"
    define files where "files = visit_files P pats sb root es"
    define act where "act = on_visit_directory root (map (os_basename P) subdirs)
                          (map (os_basename P) files) depth md prune"
    define c1 where "c1 = (if collect \<noteq> FilesOnly then setdefault root c else c)"
    define files1 where "files1 = (if act = Partial \<and> length files > 1 then [hd files, last files] else files)"
    define subdirs1 where "subdirs1 = (if act = Partial then [] else subdirs)"
    define c2 where "c2 = store_files collect root files1 c1"
    define step where "step = (\<lambda>sd acc. case map_of (kept_children P pats root es) sd of
                          None \<Rightarrow> acc
                        | Some n \<Rightarrow> recurse_dir P pats sb collect md prune sd n (depth + 1) acc)"
    have eq: "recurse_dir P pats sb collect md prune root node depth c =
        (if act \<noteq> Skip then fold step subdirs1 c2 else c2)"
      by (simp add: recurse_dir.simps[of _ _ _ _ _ _ _ node] Some Let_def subdirs_def files_def act_def
          c1_def files1_def subdirs1_def c2_def step_def)
    have d2: "distinct (map fst c2)"
      unfolding c2_def c1_def using "1.prems" by (simp add: distinct_store_files distinct_setdefault)
    show ?thesis
    proof (cases "act = Skip")
      case True
      then show ?thesis using d2 eq by simp
    next
      case False
      have "distinct (map fst (fold step subdirs1 c2))"
      proof (rule fold_inv[where I = "\<lambda>a::dict. distinct (map fst a)"])
        show "distinct (map fst c2)" by (rule d2)
      next
        fix sd and a :: dict
        assume sd: "sd \<in> set subdirs1" and a: "distinct (map fst a)"
        show "distinct (map fst (step sd a))"
        proof (cases "map_of (kept_children P pats root es) sd")
          case None
          then show ?thesis using a by (simp add: step_def)
        next
          case (Some n)
          have "distinct (map fst (recurse_dir P pats sb collect md prune sd n (depth + 1) a))"
            using "1.IH"[OF \<open>listdir node = Some es\<close> subdirs_def files_def act_def c1_def files1_def
                subdirs1_def c2_def False sd Some a] .
          then show ?thesis using Some by (simp add: step_def)
        qed
      qed
      then show ?thesis using False eq by simp
    qed
  qed
qed

lemma walk_directories_distinct:
  "distinct (map fst (walk_directories P fs start excl sb collect cl clm md prune))"
  unfolding walk_directories_def by (rule recurse_dir_distinct) simp

lemma update_append_notin:
  "k \<notin> fst ` set xs \<Longrightarrow> AList.update k v (xs @ ys) = xs @ AList.update k v ys"
  by (induction xs) auto

lemma fold_update_suffix:
  assumes "distinct (map fst (pre @ ys))"
  shows "fold (\<lambda>(k, v) r. if p v then AList.update k (g v) r else r) ys
           (map (\<lambda>(k, v). (k, if p v then g v else v)) pre @ ys)
         = map (\<lambda>(k, v). (k, if p v then g v else v)) (pre @ ys)"
  using assms
proof (induction ys arbitrary: pre)
  case Nil
  then show ?case by simp
next
  case (Cons y ys)
  obtain k v where y: "y = (k, v)" by (cases y)
  define G where "G = (\<lambda>(k :: 'a, v). (k, if p v then g v else v))"
  define F where "F = (\<lambda>(k :: 'a, v) r. if p v then AList.update k (g v) r else r)"
  have notin: "k \<notin> fst ` set (map G pre)"
    using Cons.prems y by (auto simp: image_iff G_def)
  have d: "distinct (map fst ((pre @ [y]) @ ys))" using Cons.prems by simp
  have step: "F y (map G pre @ y # ys) = map G (pre @ [y]) @ ys"
    using notin y by (simp add: update_append_notin F_def G_def)
  have "fold F (y # ys) (map G pre @ y # ys) = fold F ys (F y (map G pre @ y # ys))"
    by simp
  also have "\<dots> = fold F ys (map G (pre @ [y]) @ ys)" by (simp only: step)
  also have "\<dots> = map G ((pre @ [y]) @ ys)"
    using Cons.IH[OF d] unfolding F_def G_def .
  finally show ?case unfolding F_def G_def by simp
qed

lemma fold_update_map:
  assumes "distinct (map fst xs)"
  shows "fold (\<lambda>(k, v) r. if p v then AList.update k (g v) r else r) xs xs
         = map (\<lambda>(k, v). (k, if p v then g v else v)) xs"
  using fold_update_suffix[of "[]" xs p g] assms by simp

lemma half_formula:
  "nat (max ((case clm of None \<Rightarrow> 2 | Some x \<Rightarrow> if x = 0 then 2 else x) div 2) 1)
     = nat (max 1 ((case clm of None \<Rightarrow> 2 | Some x \<Rightarrow> x) div 2))"
  by (auto split: option.splits)

lemma truncate_files_eq:
  "truncate_files clm fl =
     take (nat (max 1 ((case clm of None \<Rightarrow> 2 | Some x \<Rightarrow> x) div 2))) fl
       @ drop (length fl - nat (max 1 ((case clm of None \<Rightarrow> 2 | Some x \<Rightarrow> x) div 2))) fl"
  unfolding truncate_files_def Let_def half_formula ..

text \<open>
  C4. Secondary truncation. Under \<open>collect = all\<close> with a collect-limit that is set and
  not 0 (the code tests the limit for truth, so 0 counts as unset), the pass replaces
  the list of every entry of the walker's map with more files than the limit by its
  first \<open>h\<close> and last \<open>h\<close> elements, \<open>h = max(1, floor(minimum / 2))\<close> with minimum 2 by
  default, and leaves the other entries as they are; it changes nothing under any other
  collection strategy. Ten files under limit 5 and minimum 4 become four: the first two
  and the last two.
\<close>

theorem secondary_truncation:
  assumes "raw = walk_directories P fs start excl sort_by CollectAll (Some lim) clm max_depth prune"
    and "lim \<noteq> 0"
    and "h = nat (max 1 ((case clm of None \<Rightarrow> 2 | Some x \<Rightarrow> x) div 2))"
  shows "truncate_pass CollectAll (Some lim) clm raw =
           map (\<lambda>(d, fl). (d, if int (length fl) > lim then take h fl @ drop (length fl - h) fl else fl)) raw
    \<and> (collect \<noteq> CollectAll \<longrightarrow> truncate_pass collect cl clm' r = r)
    \<and> (length fl10 = 10 \<longrightarrow>
          truncate_pass CollectAll (Some 5) (Some 4) [(d, fl10)] = [(d, take 2 fl10 @ drop 8 fl10)]
          \<and> length (take 2 fl10 @ drop 8 fl10) = 4)"
proof (intro conjI impI)
  have "distinct (map fst raw)" unfolding assms(1) by (rule walk_directories_distinct)
  then show "truncate_pass CollectAll (Some lim) clm raw =
           map (\<lambda>(d, fl). (d, if int (length fl) > lim then take h fl @ drop (length fl - h) fl else fl)) raw"
    using assms(2) unfolding truncate_pass_def assms(3)
    by (simp add: fold_update_map[where p = "\<lambda>fl. lim < int (length fl)"] truncate_files_eq
          del: max.absorb1 max.absorb2 max.absorb3 max.absorb4 cong: if_cong)
next
  assume "collect \<noteq> CollectAll"
  then show "truncate_pass collect cl clm' r = r"
    by (simp add: truncate_pass_def split: option.splits)
next
  assume "length fl10 = 10"
  then show "truncate_pass CollectAll (Some 5) (Some 4) [(d, fl10)] = [(d, take 2 fl10 @ drop 8 fl10)]"
    by (simp add: truncate_pass_def truncate_files_def)
next
  assume "length fl10 = 10"
  then show "length (take 2 fl10 @ drop 8 fl10) = 4" by simp
qed

theorem secondary_truncation_witness:
  "truncate_pass CollectAll (Some 5) (Some 4)
     (walk_directories demo_platform ten_files_tree ''/r'' None IName CollectAll (Some 5) (Some 4) None None)
   = [(''/r'', [''/r/f01'', ''/r/f02'', ''/r/f09'', ''/r/f10'']), (''/r/few'', [''/r/few/x'', ''/r/few/y''])]
   \<and> truncate_pass DirsFirstLast (Some 5) (Some 4) [(''/r'', [''a'', ''b'', ''c'', ''d'', ''e'', ''f''])]
       = [(''/r'', [''a'', ''b'', ''c'', ''d'', ''e'', ''f''])]
   \<and> truncate_pass CollectAll (Some 5) (Some 4)
        [(''/r'', [''ka'', ''kb'', ''kc'', ''kd'', ''ke'', ''kf'', ''kg'', ''kh'', ''ki'', ''kj''])]
       = [(''/r'', [''ka'', ''kb'', ''ki'', ''kj''])]"
proof -
  let ?raw = "walk_directories demo_platform ten_files_tree ''/r'' None IName CollectAll (Some 5) (Some 4) None None"
  let ?ten = "[''ka'', ''kb'', ''kc'', ''kd'', ''ke'', ''kf'', ''kg'', ''kh'', ''ki'', ''kj'']"
  have w: "?raw = [(''/r'', [''/r/f01'', ''/r/f02'', ''/r/f03'', ''/r/f04'', ''/r/f05'', ''/r/f06'',
                             ''/r/f07'', ''/r/f08'', ''/r/f09'', ''/r/f10'']),
                   (''/r/few'', [''/r/few/x'', ''/r/few/y''])]"
    unfolding demo_platform_def ten_files_tree_def by code_simp
  have h: "(2::nat) = nat (max 1 ((case Some 4 of None \<Rightarrow> 2 | Some x \<Rightarrow> x) div 2))" by simp
  have n: "(5::int) \<noteq> 0" by simp
  have c: "DirsFirstLast \<noteq> CollectAll" by simp
  have l: "length ?ten = 10" by simp
  note t = secondary_truncation[OF refl n h, of demo_platform ten_files_tree "''/r''" None IName None None
      DirsFirstLast "Some 5" "Some 4" "[(''/r'', [''a'', ''b'', ''c'', ''d'', ''e'', ''f''])]" ?ten "''/r''"]
  from t c l show ?thesis unfolding w by simp
qed

text \<open>
  As stated, C4 fails for a collect-limit of 0: the limit is set and every non-empty
  list exceeds it, but the pass does not run.
\<close>

theorem secondary_truncation_counterexample:
  "\<not> (\<forall>lim raw.
        truncate_pass CollectAll (Some lim) None raw =
          map (\<lambda>(d, fl). (d, if int (length fl) > lim then take 1 fl @ drop (length fl - 1) fl else fl)) raw)"
proof
  assume a: "\<forall>lim raw.
        truncate_pass CollectAll (Some lim) None raw =
          map (\<lambda>(d, fl). (d, if int (length fl) > lim then take 1 fl @ drop (length fl - 1) fl else fl)) raw"
  have "truncate_pass CollectAll (Some 0) None [(''/r'', [''/r/a'', ''/r/b'', ''/r/c''])]
          = [(''/r'', [''/r/a'', ''/r/b'', ''/r/c''])]"
    by (simp add: truncate_pass_def)
  with a show False by simp
qed

section \<open>Properties of the path adjuster\<close>

lemma find_append_case:
  "find Q (xs @ ys) = (case find Q xs of None \<Rightarrow> find Q ys | Some x \<Rightarrow> Some x)"
  by (induction xs) auto

lemma adjust_file_list_lenient:
  "adjust_file_list P start st decs False bl fl =
     Inr (map (\<lambda>f. convert_file P start st decs bl (os_abspath P f)) fl)"
  by (induction fl) (simp_all add: adjust_file_def)

lemma adjust_items_lenient:
  "adjust_items P start st decs False bl items adj =
     Inr (fold (\<lambda>(d, fl) a.
                  AList.update (convert_dir_key P start st decs bl (os_abspath P d))
                    (map (\<lambda>f. convert_file P start st decs bl (os_abspath P f)) fl) a)
            items adj)"
  by (induction items arbitrary: adj)
     (auto simp: adjust_file_list_lenient adjust_dir_key_def)

lemma adjust_file_list_strict:
  assumes "st = Rel \<or> st = RelBase"
  shows "adjust_file_list P start st decs True bl fl =
     (case find (\<lambda>p. \<not> same_drive P p start) (map (os_abspath P) fl) of
        Some q \<Rightarrow> Inl (ValueError (cross_drive_message q))
      | None \<Rightarrow> Inr (map (\<lambda>f. convert_file P start st decs bl (os_abspath P f)) fl))"
  using assms by (induction fl) (auto simp: adjust_file_def split: option.splits)

lemma adjust_items_strict:
  assumes "st = Rel \<or> st = RelBase"
  shows "adjust_items P start st decs True bl items adj =
     (case find (\<lambda>p. \<not> same_drive P p start) (map (os_abspath P) (entry_paths items)) of
        Some q \<Rightarrow> Inl (ValueError (cross_drive_message q))
      | None \<Rightarrow>
          Inr (fold (\<lambda>(d, fl) a.
                  AList.update (convert_dir_key P start st decs bl (os_abspath P d))
                    (map (\<lambda>f. convert_file P start st decs bl (os_abspath P f)) fl) a)
            items adj))"
proof (induction items arbitrary: adj)
  case Nil
  then show ?case by (simp add: entry_paths_def)
next
  case (Cons it items)
  show ?case
  proof (cases it)
    case (Pair d fl)
    have ep: "entry_paths ((d, fl) # items) = fl @ [d] @ entry_paths items"
      by (simp add: entry_paths_def)
    show ?thesis
    proof (cases "find (\<lambda>p. \<not> same_drive P p start) (map (os_abspath P) fl)")
      case (Some q)
      then show ?thesis unfolding Pair
        by (simp add: ep find_append_case adjust_file_list_strict[OF assms])
    next
      case None
      show ?thesis
      proof (cases "same_drive P (os_abspath P d) start")
        case True
        then show ?thesis using None assms Cons.IH unfolding Pair
          by (simp add: ep find_append_case adjust_file_list_strict[OF assms] adjust_dir_key_def
                split: option.splits)
      next
        case False
        then show ?thesis using None assms unfolding Pair
          by (auto simp: ep find_append_case adjust_file_list_strict[OF assms] adjust_dir_key_def)
      qed
    qed
  qed
qed

text \<open>
  C5. Cross-root entries under \<open>rel\<close> and \<open>rel-base\<close>. In strict mode the adjuster fails
  at the first path, in the order it examines them, that lies on another drive than
  the start path, with a \<open>ValueError\<close> whose message is the text "Cannot create relative
  path across drives: " followed by that absolute path; the check of a single file or
  directory key fails in the same way. Without strict mode the adjuster never fails,
  and a file or a directory key on another drive is rendered as its absolute path,
  unmodified.
\<close>

theorem cross_root_handling:
  assumes "path_style = Rel \<or> path_style = RelBase"
  shows "(find (\<lambda>p. \<not> same_drive P p start) (map (os_abspath P) (entry_paths collected)) = Some q \<longrightarrow>
            adjust_paths P collected start path_style decs collect True bl
              = Inl (ValueError (''Cannot create relative path across drives: '' @ q)))
    \<and> (\<exists>adjusted. adjust_paths P collected start path_style decs collect False bl = Inr adjusted)
    \<and> (\<not> same_drive P (os_abspath P f) start \<longrightarrow>
          adjust_file P start path_style decs True bl f
            = Inl (ValueError (''Cannot create relative path across drives: '' @ os_abspath P f))
          \<and> adjust_file P start path_style decs False bl f = Inr (os_abspath P f))
    \<and> (\<not> same_drive P (os_abspath P d) start \<longrightarrow>
          adjust_dir_key P start path_style decs True bl d
            = Inl (ValueError (''Cannot create relative path across drives: '' @ os_abspath P d))
          \<and> adjust_dir_key P start path_style decs False bl d = Inr (os_abspath P d))
    \<and> (\<not> same_drive P (os_abspath P f) start \<and> \<not> same_drive P (os_abspath P d) start \<longrightarrow>
          adjust_paths P [(d, [f])] start path_style decs collect False bl
            = Inr [(os_abspath P d, [os_abspath P f])])"
proof (intro conjI impI)
  assume "find (\<lambda>p. \<not> same_drive P p start) (map (os_abspath P) (entry_paths collected)) = Some q"
  then show "adjust_paths P collected start path_style decs collect True bl
              = Inl (ValueError (''Cannot create relative path across drives: '' @ q))"
    by (simp add: adjust_paths_def adjust_items_strict[OF assms] cross_drive_message_def)
next
  show "\<exists>adjusted. adjust_paths P collected start path_style decs collect False bl = Inr adjusted"
    by (simp add: adjust_paths_def adjust_items_lenient)
next
  assume "\<not> same_drive P (os_abspath P f) start"
  then show "adjust_file P start path_style decs True bl f
            = Inl (ValueError (''Cannot create relative path across drives: '' @ os_abspath P f))"
    using assms by (auto simp: adjust_file_def cross_drive_message_def)
next
  assume "\<not> same_drive P (os_abspath P f) start"
  then show "adjust_file P start path_style decs False bl f = Inr (os_abspath P f)"
    using assms by (auto simp: adjust_file_def convert_file_def)
next
  assume "\<not> same_drive P (os_abspath P d) start"
  then show "adjust_dir_key P start path_style decs True bl d
            = Inl (ValueError (''Cannot create relative path across drives: '' @ os_abspath P d))"
    using assms by (auto simp: adjust_dir_key_def cross_drive_message_def)
next
  assume "\<not> same_drive P (os_abspath P d) start"
  then show "adjust_dir_key P start path_style decs False bl d = Inr (os_abspath P d)"
    using assms by (auto simp: adjust_dir_key_def convert_dir_key_def)
next
  assume "\<not> same_drive P (os_abspath P f) start \<and> \<not> same_drive P (os_abspath P d) start"
  then show "adjust_paths P [(d, [f])] start path_style decs collect False bl
            = Inr [(os_abspath P d, [os_abspath P f])]"
    using assms unfolding adjust_paths_def adjust_items_lenient
    by (auto simp: convert_file_def convert_dir_key_def)
qed

theorem cross_root_handling_witness:
  "adjust_paths drive_platform [(other_drive_dir, [other_drive_file])] start_drive_dir Rel {Windows}
       CollectAll True None
     = Inl (ValueError (''Cannot create relative path across drives: '' @ other_drive_file))
   \<and> adjust_paths drive_platform [(other_drive_dir, [other_drive_file])] start_drive_dir Rel {Windows}
       CollectAll False None
     = Inr [(other_drive_dir, [other_drive_file])]
   \<and> adjust_file drive_platform start_drive_dir Rel {Windows} True None other_drive_file
     = Inl (ValueError (''Cannot create relative path across drives: '' @ other_drive_file))
   \<and> adjust_file drive_platform start_drive_dir Rel {Windows} False None other_drive_file
     = Inr other_drive_file
   \<and> adjust_dir_key drive_platform start_drive_dir Rel {Windows} True None other_drive_dir
     = Inl (ValueError (''Cannot create relative path across drives: '' @ other_drive_dir))
   \<and> adjust_dir_key drive_platform start_drive_dir Rel {Windows} False None other_drive_dir
     = Inr other_drive_dir"
proof -
  have a: "os_abspath drive_platform = (\<lambda>p. p)" by (simp add: drive_platform_def)
  have st: "Rel = Rel \<or> Rel = RelBase" by simp
  have f: "\<not> same_drive drive_platform (os_abspath drive_platform other_drive_file) start_drive_dir"
    unfolding a drive_platform_def other_drive_file_def start_drive_dir_def by code_simp
  have d: "\<not> same_drive drive_platform (os_abspath drive_platform other_drive_dir) start_drive_dir"
    unfolding a drive_platform_def other_drive_dir_def start_drive_dir_def by code_simp
  have fnd: "find (\<lambda>p. \<not> same_drive drive_platform p start_drive_dir)
               (map (os_abspath drive_platform) (entry_paths [(other_drive_dir, [other_drive_file])]))
             = Some other_drive_file"
    using f by (simp add: entry_paths_def a)
  note t = cross_root_handling[OF st, of drive_platform start_drive_dir
      "[(other_drive_dir, [other_drive_file])]" other_drive_file "{Windows}" CollectAll None
      other_drive_file other_drive_dir]
  from t f d fnd show ?thesis unfolding a by simp
qed

section \<open>Properties of the POSIX path functions\<close>

lemma split_on_nonempty [simp]: "split_on c xs \<noteq> []"
  by (induction xs) auto

lemma split_on_append: "split_on c (xs @ c # ys) = split_on c xs @ split_on c ys"
  by (induction xs) auto

lemma split_on_nosep: "c \<notin> set xs \<Longrightarrow> split_on c xs = [xs]"
  by (induction xs) auto

lemma split_on_parts_nosep: "x \<in> set (split_on c xs) \<Longrightarrow> c \<notin> set x"
proof (induction xs arbitrary: x)
  case Nil
  then show ?case by simp
next
  case (Cons a xs)
  show ?case
  proof (cases "a = c")
    case True
    then show ?thesis using Cons by auto
  next
    case False
    obtain h t where ht: "split_on c xs = h # t" by (cases "split_on c xs") auto
    then have "x = a # h \<or> x \<in> set t" using Cons.prems False by auto
    then show ?thesis using Cons.IH[of h] Cons.IH[of x] ht False by auto
  qed
qed

lemma split_on_replicate: "split_on c (replicate k c @ xs) = replicate k [] @ split_on c xs"
  by (induction k) auto

lemma split_on_replicate_only: "split_on c (replicate k c) = replicate k [] @ [[]]"
  using split_on_replicate[of c k "[]"] by simp

lemma split_on_intercalate:
  assumes "\<forall>p \<in> set cs. fslash \<notin> set p" and "cs \<noteq> []"
  shows "split_on fslash (intercalate ''/'' cs) = cs"
  using assms
proof (induction cs)
  case Nil
  then show ?case by simp
next
  case (Cons p cs)
  show ?case
  proof (cases cs)
    case Nil
    then show ?thesis using Cons.prems by (simp add: split_on_nosep)
  next
    case (Cons q ps)
    then have "split_on fslash (intercalate ''/'' cs) = cs" using Cons.IH Cons.prems by simp
    then show ?thesis using Cons.prems Cons by (simp add: split_on_append split_on_nosep)
  qed
qed

lemma filter_split_clean:
  assumes "\<forall>p \<in> set cs. proper_name p"
  shows "filter (\<lambda>x. x \<noteq> []) (split_on fslash (replicate k fslash @ intercalate ''/'' cs)) = cs"
proof (cases "cs = []")
  case True
  then show ?thesis by (simp add: split_on_replicate_only)
next
  case False
  have "\<forall>p \<in> set cs. fslash \<notin> set p" using assms by (simp add: proper_name_def)
  then have "split_on fslash (intercalate ''/'' cs) = cs" using False by (rule split_on_intercalate)
  moreover have "filter (\<lambda>x. x \<noteq> []) cs = cs" using assms by (auto simp: proper_name_def filter_id_conv)
  ultimately show ?thesis by (simp add: split_on_replicate)
qed

lemma norm_step_proper: "proper_name n \<Longrightarrow> norm_step b acc n = acc @ [n]"
  by (simp add: norm_step_def proper_name_def)

lemma norm_step_empty [simp]: "norm_step b acc [] = acc"
  by (simp add: norm_step_def)

lemma foldl_norm_step_proper:
  "\<forall>p \<in> set cs. proper_name p \<Longrightarrow> foldl (norm_step b) acc cs = acc @ cs"
  by (induction cs arbitrary: acc) (simp_all add: norm_step_proper)

lemma foldl_norm_step_empties [simp]: "foldl (norm_step b) acc (replicate k []) = acc"
  by (induction k) simp_all

lemma norm_step_keeps_proper:
  assumes "\<forall>p \<in> set acc. proper_name p" and "fslash \<notin> set seg"
  shows "\<forall>p \<in> set (norm_step True acc seg). proper_name p"
proof (cases "seg = [] \<or> seg = ''.''")
  case True
  then show ?thesis using assms by (auto simp: norm_step_def)
next
  case False
  show ?thesis
  proof (cases "seg = ''..''")
    case True
    have "acc \<noteq> [] \<Longrightarrow> last acc \<noteq> ''..''"
      using assms(1) last_in_set[of acc] by (auto simp: proper_name_def)
    then show ?thesis using True assms(1) by (auto simp: norm_step_def dest: in_set_butlastD)
  next
    case F2: False
    then have "proper_name seg" using False assms(2) by (simp add: proper_name_def)
    then show ?thesis using assms(1) by (simp add: norm_step_proper)
  qed
qed

lemma foldl_norm_step_keeps_proper:
  assumes "\<forall>p \<in> set acc. proper_name p" and "\<forall>s \<in> set segs. fslash \<notin> set s"
  shows "\<forall>p \<in> set (foldl (norm_step True) acc segs). proper_name p"
  using assms
proof (induction segs arbitrary: acc)
  case Nil
  then show ?case by simp
next
  case (Cons s segs)
  have "\<forall>p \<in> set (norm_step True acc s). proper_name p"
    using Cons.prems by (intro norm_step_keeps_proper) auto
  then show ?case using Cons.IH Cons.prems by simp
qed

lemma ncomps_proper: "\<forall>c \<in> set (ncomps p). proper_name c"
  unfolding ncomps_def
  by (rule foldl_norm_step_keeps_proper) (auto dest: split_on_parts_nosep)

lemma ncomps_clean:
  assumes "\<forall>p \<in> set cs. proper_name p"
  shows "ncomps (replicate k fslash @ intercalate ''/'' cs) = cs"
proof (cases "cs = []")
  case True
  then show ?thesis by (simp add: ncomps_def split_on_replicate_only)
next
  case False
  have "\<forall>p \<in> set cs. fslash \<notin> set p" using assms by (simp add: proper_name_def)
  then have "split_on fslash (intercalate ''/'' cs) = cs" using False by (rule split_on_intercalate)
  then show ?thesis using assms
    by (simp add: ncomps_def split_on_replicate foldl_norm_step_proper)
qed

lemma posix_normpath_abs:
  assumes "posix_isabs p"
  shows "\<exists>k > 0. posix_normpath p = replicate k fslash @ intercalate ''/'' (ncomps p)"
proof -
  from assms have ne: "p \<noteq> []" by (auto simp: posix_isabs_def)
  define k where "k = (if take 2 p = ''//'' \<and> take 3 p \<noteq> ''///'' then 2 else (1::nat))"
  have k: "k > 0" by (simp add: k_def)
  then have "replicate k fslash @ intercalate ''/'' (ncomps p) \<noteq> []" by (cases k) auto
  then have "posix_normpath p = replicate k fslash @ intercalate ''/'' (ncomps p)"
    using assms ne k unfolding posix_normpath_def ncomps_def k_def Let_def by auto
  then show ?thesis using k by blast
qed

lemma posix_isabs_replicate: "k > 0 \<Longrightarrow> posix_isabs (replicate k fslash @ xs)"
  by (cases k) (auto simp: posix_isabs_def)

lemma posix_abspath_abs:
  assumes "posix_isabs p"
  shows "posix_isabs (posix_abspath cwd p)" and "ncomps (posix_abspath cwd p) = ncomps p"
    and "filter (\<lambda>x. x \<noteq> []) (split_on fslash (posix_abspath cwd p)) = ncomps p"
    and "\<exists>k > 0. posix_abspath cwd p = replicate k fslash @ intercalate ''/'' (ncomps p)"
proof -
  obtain k where k: "k > 0" "posix_normpath p = replicate k fslash @ intercalate ''/'' (ncomps p)"
    using posix_normpath_abs[OF assms] by blast
  have a: "posix_abspath cwd p = replicate k fslash @ intercalate ''/'' (ncomps p)"
    using assms k by (simp add: posix_abspath_def)
  show "posix_isabs (posix_abspath cwd p)" unfolding a using k(1) by (rule posix_isabs_replicate)
  show "ncomps (posix_abspath cwd p) = ncomps p" unfolding a using ncomps_proper by (rule ncomps_clean)
  show "filter (\<lambda>x. x \<noteq> []) (split_on fslash (posix_abspath cwd p)) = ncomps p"
    unfolding a using ncomps_proper by (rule filter_split_clean)
  show "\<exists>k > 0. posix_abspath cwd p = replicate k fslash @ intercalate ''/'' (ncomps p)"
    using a k(1) by blast
qed

lemma proper_name_not_abs: "proper_name n \<Longrightarrow> \<not> posix_isabs n"
  by (cases n) (auto simp: proper_name_def posix_isabs_def)

lemma posix_join_proper:
  assumes "posix_isabs start" and "proper_name n"
  shows "posix_isabs (posix_join start n)" and "ncomps (posix_join start n) = ncomps start @ [n]"
proof -
  from assms(1) have ne: "start \<noteq> []" by (auto simp: posix_isabs_def)
  have nabs: "\<not> posix_isabs n" using assms(2) by (rule proper_name_not_abs)
  have nosep: "fslash \<notin> set n" using assms(2) by (simp add: proper_name_def)
  show "posix_isabs (posix_join start n)"
    using assms(1) nabs ne by (cases start) (auto simp: posix_join_def posix_isabs_def)
  show "ncomps (posix_join start n) = ncomps start @ [n]"
  proof (cases "last start = fslash")
    case True
    then obtain s where s: "start = s @ [fslash]" using ne by (metis append_butlast_last_id)
    have "posix_join start n = s @ fslash # n" using True nabs s by (simp add: posix_join_def)
    then show ?thesis using assms(2) nosep
      by (simp add: ncomps_def s split_on_append split_on_nosep norm_step_proper)
  next
    case False
    then have "posix_join start n = start @ fslash # n" using nabs ne by (simp add: posix_join_def)
    then show ?thesis using assms(2) nosep
      by (simp add: ncomps_def split_on_append split_on_nosep norm_step_proper)
  qed
qed

lemma path_from_posix:
  assumes "posix_isabs start" and "\<forall>n \<in> set ns. proper_name n"
  shows "posix_isabs (path_from (posix cwd fnm mt) start ns)
    \<and> ncomps (path_from (posix cwd fnm mt) start ns) = ncomps start @ ns"
  using assms(2)
proof (induction ns rule: rev_induct)
  case Nil
  then show ?case using assms(1) by (simp add: path_from_def)
next
  case (snoc n ns)
  then have ih: "posix_isabs (path_from (posix cwd fnm mt) start ns)"
      "ncomps (path_from (posix cwd fnm mt) start ns) = ncomps start @ ns"
    and n: "proper_name n" by simp_all
  have j: "path_from (posix cwd fnm mt) start (ns @ [n]) =
             posix_join (path_from (posix cwd fnm mt) start ns) n"
    by (simp add: path_from_snoc posix_def)
  show ?case unfolding j using posix_join_proper[OF ih(1) n] ih(2) by simp
qed

lemma commonprefix_append [simp]: "commonprefix xs (xs @ ys) = xs"
proof (induction xs)
  case Nil
  show ?case by (cases ys) simp_all
next
  case (Cons x xs)
  then show ?case by simp
qed

lemma posix_relpath_below:
  assumes "posix_isabs start" and "posix_isabs p" and "ncomps p = ncomps start @ ns"
  shows "posix_relpath cwd p start = (if ns = [] then ''.'' else foldl posix_join (hd ns) (tl ns))"
  using assms
  by (simp add: posix_relpath_def posix_abspath_abs(3) Let_def)

lemma posix_join_plain:
  "a \<noteq> [] \<Longrightarrow> last a \<noteq> fslash \<Longrightarrow> proper_name b \<Longrightarrow> posix_join a b = a @ ''/'' @ b"
  using proper_name_not_abs[of b] by (simp add: posix_join_def)

lemma foldl_posix_join_intercalate:
  assumes "\<forall>n \<in> set ns. proper_name n" and "a \<noteq> []" and "last a \<noteq> fslash"
  shows "foldl posix_join a ns = intercalate ''/'' (a # ns)"
  using assms
proof (induction ns arbitrary: a)
  case Nil
  then show ?case by simp
next
  case (Cons n ns)
  have pn: "proper_name n" using Cons.prems by simp
  then have l: "last (a @ ''/'' @ n) \<noteq> fslash"
    by (cases n rule: rev_cases) (auto simp: proper_name_def)
  have "foldl posix_join (posix_join a n) ns = intercalate ''/'' ((a @ ''/'' @ n) # ns)"
    using Cons.IH[of "a @ ''/'' @ n"] Cons.prems l by (simp add: posix_join_plain[OF _ _ pn])
  also have "\<dots> = intercalate ''/'' (a # n # ns)" by (cases ns) simp_all
  finally show ?case by simp
qed

lemma proper_name_last: "proper_name n \<Longrightarrow> n \<noteq> [] \<and> last n \<noteq> fslash"
  by (cases n rule: rev_cases) (auto simp: proper_name_def)

lemma rel_of_names:
  assumes "\<forall>n \<in> set ns. proper_name n" and "ns \<noteq> []"
  shows "foldl posix_join (hd ns) (tl ns) = intercalate ''/'' ns"
proof -
  obtain n ms where ns: "ns = n # ms" using assms(2) by (cases ns) auto
  then show ?thesis
    using foldl_posix_join_intercalate[of ms n] assms(1) proper_name_last[of n] by simp
qed

lemma same_drive_posix [simp]: "same_drive (posix cwd fnm mt) a b"
  by (simp add: same_drive_def posix_def)

lemma posix_rel_of_child:
  assumes "posix_isabs start" and "proper_name n"
  shows "posix_relpath cwd (posix_abspath cwd (posix_join start n)) start = n"
proof -
  have j: "posix_isabs (posix_join start n)" "ncomps (posix_join start n) = ncomps start @ [n]"
    using posix_join_proper[OF assms] by simp_all
  have "posix_isabs (posix_abspath cwd (posix_join start n))"
    and "ncomps (posix_abspath cwd (posix_join start n)) = ncomps start @ [n]"
    using posix_abspath_abs(1,2)[OF j(1)] j(2) by simp_all
  then show ?thesis using posix_relpath_below[OF assms(1), of _ "[n]"] by simp
qed

lemma posix_rel_of_start:
  assumes "posix_isabs start"
  shows "posix_relpath cwd (posix_abspath cwd start) start = ''.''"
proof -
  have "posix_isabs (posix_abspath cwd start)"
    and "ncomps (posix_abspath cwd start) = ncomps start @ []"
    using posix_abspath_abs(1,2)[OF assms] by simp_all
  then show ?thesis using posix_relpath_below[OF assms, of _ "[]"] by simp
qed

lemma direct_files_any_platform:
  assumes "\<forall>n \<in> set names. same_drive P (os_abspath P (os_join P start n)) start
             \<and> os_relpath P (os_abspath P (os_join P start n)) start = n"
    and "same_drive P (os_abspath P start) start"
    and "os_relpath P (os_abspath P start) start = ''.''"
  shows "adjust_paths P [(start, map (os_join P start) names)] start Rel decs collect strict bl
           = Inr [(apply_decorations ''.'' decs, map (\<lambda>n. apply_decorations n decs) names)]"
    and "adjust_paths P [(start, map (os_join P start) names)] start RelBase decs collect strict None
           = Inr [(apply_decorations (os_basename P start) decs,
                   map (\<lambda>n. apply_decorations (os_join P (os_basename P start) n) decs) names)]"
    and "adjust_dir_key P start RelBase decs strict None start
           = Inr (apply_decorations (os_basename P start) decs)"
    and "l \<noteq> [] \<Longrightarrow> adjust_dir_key P start RelBase decs strict (Some l) start
           = Inr (apply_decorations l decs)"
    and "adjust_dir_key P start RelBase decs strict (Some []) start
           = Inr (apply_decorations (os_basename P start) decs)"
proof -
  have file_rel: "adjust_file P start Rel decs strict bl (os_join P start n)
      = Inr (apply_decorations n decs)" if "n \<in> set names" for n
    using that assms(1) by (simp add: adjust_file_def convert_file_def)
  have file_base: "adjust_file P start RelBase decs strict None (os_join P start n)
      = Inr (apply_decorations (os_join P (os_basename P start) n) decs)" if "n \<in> set names" for n
    using that assms(1) by (simp add: adjust_file_def convert_file_def label_of_def)
  have key_rel: "adjust_dir_key P start Rel decs strict bl start = Inr (apply_decorations ''.'' decs)"
    using assms(2,3) by (simp add: adjust_dir_key_def convert_dir_key_def)
  show key_none: "adjust_dir_key P start RelBase decs strict None start
      = Inr (apply_decorations (os_basename P start) decs)"
    using assms(2,3) by (simp add: adjust_dir_key_def convert_dir_key_def label_of_def)
  show "adjust_dir_key P start RelBase decs strict (Some l) start = Inr (apply_decorations l decs)"
    if "l \<noteq> []"
    using assms(2,3) that by (simp add: adjust_dir_key_def convert_dir_key_def label_of_def)
  show "adjust_dir_key P start RelBase decs strict (Some []) start
      = Inr (apply_decorations (os_basename P start) decs)"
    using assms(2,3) by (simp add: adjust_dir_key_def convert_dir_key_def label_of_def)
  have l1: "set ms \<subseteq> set names \<Longrightarrow>
      adjust_file_list P start Rel decs strict bl (map (os_join P start) ms)
      = Inr (map (\<lambda>n. apply_decorations n decs) ms)" for ms
    using file_rel by (induction ms) simp_all
  have l2: "set ms \<subseteq> set names \<Longrightarrow>
      adjust_file_list P start RelBase decs strict None (map (os_join P start) ms)
      = Inr (map (\<lambda>n. apply_decorations (os_join P (os_basename P start) n) decs) ms)" for ms
    using file_base by (induction ms) simp_all
  show "adjust_paths P [(start, map (os_join P start) names)] start Rel decs collect strict bl
           = Inr [(apply_decorations ''.'' decs, map (\<lambda>n. apply_decorations n decs) names)]"
    using l1[of names] key_rel by (simp add: adjust_paths_def)
  show "adjust_paths P [(start, map (os_join P start) names)] start RelBase decs collect strict None
           = Inr [(apply_decorations (os_basename P start) decs,
                   map (\<lambda>n. apply_decorations (os_join P (os_basename P start) n) decs) names)]"
    using l2[of names] key_none by (simp add: adjust_paths_def)
qed

lemma posix_direct_children:
  assumes "Q = posix cwd fnm mt" and "posix_isabs start" and "\<forall>n \<in> set names. proper_name n"
  shows "\<forall>n \<in> set names. same_drive Q (os_abspath Q (os_join Q start n)) start
             \<and> os_relpath Q (os_abspath Q (os_join Q start n)) start = n"
    and "same_drive Q (os_abspath Q start) start"
    and "os_relpath Q (os_abspath Q start) start = ''.''"
proof -
  have Q: "os_join Q = posix_join" "os_abspath Q = posix_abspath cwd"
    "os_relpath Q = posix_relpath cwd"
    by (simp_all add: assms(1) posix_def)
  have sd: "\<And>a b. same_drive Q a b" by (simp add: assms(1))
  show "\<forall>n \<in> set names. same_drive Q (os_abspath Q (os_join Q start n)) start
             \<and> os_relpath Q (os_abspath Q (os_join Q start n)) start = n"
    using assms(3) posix_rel_of_child[OF assms(2), of _ cwd] by (simp add: sd Q)
  show "same_drive Q (os_abspath Q start) start" by (rule sd)
  show "os_relpath Q (os_abspath Q start) start = ''.''"
    using posix_rel_of_start[OF assms(2), of cwd] by (simp add: Q)
qed

text \<open>
  C6. Files directly inside the start directory: the paths \<open>join(start, name)\<close> that the
  walker stores for the start directory. On every platform on which these paths and the
  start path lie on the start's drive, and \<open>relpath\<close> to the start answers \<open>name\<close> for
  such a file and "." for the start path itself: under \<open>rel\<close> each file is rendered as its
  decorated bare name; under \<open>rel-base\<close> with no custom label, as the decoration of the
  start path's basename joined with the name; and under \<open>rel-base\<close> the key of the start
  directory is the decorated label alone, the label being the start path's basename when
  no custom label (or an empty one) is given and the custom label \<open>l\<close> otherwise. On POSIX
  the conditions on the platform need not be assumed: the same renderings hold for every
  absolute start path and all names as \<open>os.listdir\<close> returns them.
\<close>

theorem direct_files_rel_and_rel_base:
  "((\<forall>n \<in> set names. same_drive P (os_abspath P (os_join P start n)) start
           \<and> os_relpath P (os_abspath P (os_join P start n)) start = n)
      \<and> same_drive P (os_abspath P start) start
      \<and> os_relpath P (os_abspath P start) start = ''.'' \<longrightarrow>
      adjust_paths P [(start, map (os_join P start) names)] start Rel decs collect strict bl
           = Inr [(apply_decorations ''.'' decs, map (\<lambda>n. apply_decorations n decs) names)]
      \<and> adjust_paths P [(start, map (os_join P start) names)] start RelBase decs collect strict None
           = Inr [(apply_decorations (os_basename P start) decs,
                   map (\<lambda>n. apply_decorations (os_join P (os_basename P start) n) decs) names)]
      \<and> adjust_dir_key P start RelBase decs strict None start
           = Inr (apply_decorations (os_basename P start) decs)
      \<and> (l \<noteq> [] \<longrightarrow> adjust_dir_key P start RelBase decs strict (Some l) start
           = Inr (apply_decorations l decs))
      \<and> adjust_dir_key P start RelBase decs strict (Some []) start
           = Inr (apply_decorations (os_basename P start) decs))
   \<and> (Q = posix cwd fnm mt \<and> posix_isabs pstart \<and> (\<forall>n \<in> set pnames. proper_name n) \<longrightarrow>
      adjust_paths Q [(pstart, map (os_join Q pstart) pnames)] pstart Rel decs collect strict bl
           = Inr [(apply_decorations ''.'' decs, map (\<lambda>n. apply_decorations n decs) pnames)]
      \<and> adjust_paths Q [(pstart, map (os_join Q pstart) pnames)] pstart RelBase decs collect strict None
           = Inr [(apply_decorations (os_basename Q pstart) decs,
                   map (\<lambda>n. apply_decorations (os_join Q (os_basename Q pstart) n) decs) pnames)]
      \<and> adjust_dir_key Q pstart RelBase decs strict None pstart
           = Inr (apply_decorations (os_basename Q pstart) decs)
      \<and> (l \<noteq> [] \<longrightarrow> adjust_dir_key Q pstart RelBase decs strict (Some l) pstart
           = Inr (apply_decorations l decs))
      \<and> adjust_dir_key Q pstart RelBase decs strict (Some []) pstart
           = Inr (apply_decorations (os_basename Q pstart) decs))"
proof (intro conjI impI)
  assume h: "(\<forall>n \<in> set names. same_drive P (os_abspath P (os_join P start n)) start
           \<and> os_relpath P (os_abspath P (os_join P start n)) start = n)
      \<and> same_drive P (os_abspath P start) start
      \<and> os_relpath P (os_abspath P start) start = ''.''"
  then have h1: "\<forall>n \<in> set names. same_drive P (os_abspath P (os_join P start n)) start
           \<and> os_relpath P (os_abspath P (os_join P start n)) start = n"
    and h2: "same_drive P (os_abspath P start) start"
    and h3: "os_relpath P (os_abspath P start) start = ''.''"
    by blast+
  note g = direct_files_any_platform[OF h1 h2 h3]
  show "adjust_paths P [(start, map (os_join P start) names)] start Rel decs collect strict bl
           = Inr [(apply_decorations ''.'' decs, map (\<lambda>n. apply_decorations n decs) names)]"
    by (rule g(1))
  show "adjust_paths P [(start, map (os_join P start) names)] start RelBase decs collect strict None
           = Inr [(apply_decorations (os_basename P start) decs,
                   map (\<lambda>n. apply_decorations (os_join P (os_basename P start) n) decs) names)]"
    by (rule g(2))
  show "adjust_dir_key P start RelBase decs strict None start
           = Inr (apply_decorations (os_basename P start) decs)"
    by (rule g(3))
  show "adjust_dir_key P start RelBase decs strict (Some []) start
           = Inr (apply_decorations (os_basename P start) decs)"
    by (rule g(5))
  show "adjust_dir_key P start RelBase decs strict (Some l) start = Inr (apply_decorations l decs)"
    if "l \<noteq> []"
    using that by (rule g(4))
next
  assume h: "Q = posix cwd fnm mt \<and> posix_isabs pstart \<and> (\<forall>n \<in> set pnames. proper_name n)"
  then have q1: "Q = posix cwd fnm mt" and q2: "posix_isabs pstart"
    and q3: "\<forall>n \<in> set pnames. proper_name n"
    by blast+
  note g = direct_files_any_platform[OF posix_direct_children[OF q1 q2 q3]]
  show "adjust_paths Q [(pstart, map (os_join Q pstart) pnames)] pstart Rel decs collect strict bl
           = Inr [(apply_decorations ''.'' decs, map (\<lambda>n. apply_decorations n decs) pnames)]"
    by (rule g(1))
  show "adjust_paths Q [(pstart, map (os_join Q pstart) pnames)] pstart RelBase decs collect strict None
           = Inr [(apply_decorations (os_basename Q pstart) decs,
                   map (\<lambda>n. apply_decorations (os_join Q (os_basename Q pstart) n) decs) pnames)]"
    by (rule g(2))
  show "adjust_dir_key Q pstart RelBase decs strict None pstart
           = Inr (apply_decorations (os_basename Q pstart) decs)"
    by (rule g(3))
  show "adjust_dir_key Q pstart RelBase decs strict (Some []) pstart
           = Inr (apply_decorations (os_basename Q pstart) decs)"
    by (rule g(5))
  show "adjust_dir_key Q pstart RelBase decs strict (Some l) pstart = Inr (apply_decorations l decs)"
    if "l \<noteq> []"
    using that by (rule g(4))
qed

theorem direct_files_rel_and_rel_base_witness:
  "adjust_paths demo_platform [(''/home/u/proj'', [''/home/u/proj/a.py'', ''/home/u/proj/b.py''])]
       ''/home/u/proj'' Rel {Unix} CollectAll True None
     = Inr [(''.'', [''a.py'', ''b.py''])]
   \<and> adjust_paths demo_platform [(''/home/u/proj'', [''/home/u/proj/a.py'', ''/home/u/proj/b.py''])]
       ''/home/u/proj'' RelBase {Unix} CollectAll True None
     = Inr [(''proj'', [''proj/a.py'', ''proj/b.py''])]
   \<and> adjust_dir_key demo_platform ''/home/u/proj'' RelBase {Unix} True None ''/home/u/proj''
     = Inr ''proj''
   \<and> adjust_dir_key demo_platform ''/home/u/proj'' RelBase {Unix} True (Some ''work'') ''/home/u/proj''
     = Inr ''work''
   \<and> adjust_dir_key demo_platform ''/home/u/proj'' RelBase {Unix} True (Some []) ''/home/u/proj''
     = Inr ''proj''
   \<and> same_drive demo_platform (os_abspath demo_platform ''/home/u/proj'') ''/home/u/proj''
   \<and> os_relpath demo_platform (os_abspath demo_platform ''/home/u/proj'') ''/home/u/proj'' = ''.''
   \<and> os_relpath demo_platform (os_abspath demo_platform ''/home/u/proj/a.py'') ''/home/u/proj'' = ''a.py''
   \<and> adjust_paths (posix ''/tmp'' glob_match (\<lambda>p. 0 :: nat)) [(''/srv'', [''/srv/x''])]
       ''/srv'' RelBase {Unix} CollectAll True None
     = Inr [(''srv'', [''srv/x''])]
   \<and> adjust_dir_key (posix ''/tmp'' glob_match (\<lambda>p. 0 :: nat)) ''/srv'' RelBase {Unix} True
       (Some ''work'') ''/srv''
     = Inr ''work''"
proof -
  let ?Q = "posix ''/tmp'' glob_match (\<lambda>p. 0 :: nat)"
  have a: "posix_isabs ''/srv''" by (simp add: posix_isabs_def)
  have n: "\<forall>n \<in> set [''x'']. proper_name n" by (simp add: proper_name_def)
  have w: "''work'' \<noteq> []" by simp
  have s: "same_drive demo_platform (os_abspath demo_platform ''/home/u/proj'') ''/home/u/proj''"
    unfolding demo_platform_def by code_simp
  have r: "os_relpath demo_platform (os_abspath demo_platform ''/home/u/proj'') ''/home/u/proj'' = ''.''"
    unfolding demo_platform_def by code_simp
  have ra: "os_relpath demo_platform (os_abspath demo_platform ''/home/u/proj/a.py'') ''/home/u/proj''
      = ''a.py''"
    unfolding demo_platform_def by code_simp
  have e: "os_join demo_platform ''/home/u/proj'' ''a.py'' = ''/home/u/proj/a.py''"
    "os_join demo_platform ''/home/u/proj'' ''b.py'' = ''/home/u/proj/b.py''"
    "os_join ?Q ''/srv'' ''x'' = ''/srv/x''"
    by (simp_all add: demo_platform_def posix_def posix_join_def posix_isabs_def)
  have sa: "same_drive demo_platform (os_abspath demo_platform ''/home/u/proj/a.py'') ''/home/u/proj''"
    "same_drive demo_platform (os_abspath demo_platform ''/home/u/proj/b.py'') ''/home/u/proj''"
    unfolding demo_platform_def by code_simp+
  have rb: "os_relpath demo_platform (os_abspath demo_platform ''/home/u/proj/b.py'') ''/home/u/proj''
      = ''b.py''"
    unfolding demo_platform_def by code_simp
  have c: "\<forall>n \<in> set [''a.py'', ''b.py''].
         same_drive demo_platform
           (os_abspath demo_platform (os_join demo_platform ''/home/u/proj'' n)) ''/home/u/proj''
         \<and> os_relpath demo_platform
             (os_abspath demo_platform (os_join demo_platform ''/home/u/proj'' n)) ''/home/u/proj'' = n"
    using sa ra rb by (simp add: e)
  have b: "os_basename demo_platform ''/home/u/proj'' = ''proj''" "os_basename ?Q ''/srv'' = ''srv''"
    by (simp_all add: demo_platform_def posix_def posix_basename_def)
  have j: "os_join demo_platform ''proj'' ''a.py'' = ''proj/a.py''"
     "os_join demo_platform ''proj'' ''b.py'' = ''proj/b.py''"
     "os_join ?Q ''srv'' ''x'' = ''srv/x''"
    by (simp_all add: demo_platform_def posix_def posix_join_def posix_isabs_def)
  have d: "apply_decorations ''.'' {Unix} = ''.''" "apply_decorations ''a.py'' {Unix} = ''a.py''"
    "apply_decorations ''b.py'' {Unix} = ''b.py''" "apply_decorations ''proj'' {Unix} = ''proj''"
    "apply_decorations ''proj/a.py'' {Unix} = ''proj/a.py''"
    "apply_decorations ''proj/b.py'' {Unix} = ''proj/b.py''"
    "apply_decorations ''work'' {Unix} = ''work''"
    "apply_decorations ''srv'' {Unix} = ''srv''"
    "apply_decorations ''srv/x'' {Unix} = ''srv/x''"
    by (simp_all add: apply_decorations_def replace_char_def)
  note t = direct_files_rel_and_rel_base[where P = demo_platform and start = "''/home/u/proj''"
      and names = "[''a.py'', ''b.py'']" and Q = ?Q and pstart = "''/srv''"
      and pnames = "[''x'']" and cwd = "''/tmp''" and fnm = glob_match and mt = "\<lambda>p. 0"
      and decs = "{Unix}" and collect = CollectAll and strict = True and bl = None and l = "''work''"]
  note g1 = mp[OF t[THEN conjunct1] conjI[OF c conjI[OF s r]]]
  note g2 = mp[OF t[THEN conjunct2] conjI[OF refl conjI[OF a n]]]
  have k1: "adjust_dir_key demo_platform ''/home/u/proj'' RelBase {Unix} True (Some ''work'')
      ''/home/u/proj'' = Inr (apply_decorations ''work'' {Unix})"
    using g1 w by blast
  have k2: "adjust_dir_key ?Q ''/srv'' RelBase {Unix} True (Some ''work'') ''/srv''
      = Inr (apply_decorations ''work'' {Unix})"
    using g2 w by blast
  have m: "map (os_join demo_platform ''/home/u/proj'') [''a.py'', ''b.py'']
      = [''/home/u/proj/a.py'', ''/home/u/proj/b.py'']"
    "map (os_join ?Q ''/srv'') [''x''] = [''/srv/x'']"
    by (simp_all add: e)
  show ?thesis
    using g1[THEN conjunct1] g1[THEN conjunct2, THEN conjunct1]
      g1[THEN conjunct2, THEN conjunct2, THEN conjunct1]
      g1[THEN conjunct2, THEN conjunct2, THEN conjunct2, THEN conjunct2]
      g2[THEN conjunct2, THEN conjunct1] k1 k2 s r ra
    unfolding m by (simp add: e b j d)
qed

section \<open>Distinct directories and distinct rendered keys\<close>

lemma at_path_names:
  "at_path fs ns n \<Longrightarrow> set ns \<subseteq> set (all_names fs) \<and> set (all_names n) \<subseteq> set (all_names fs)"
proof (induction rule: at_path.induct)
  case (at_root fs)
  show ?case by simp
next
  case (at_child fs ns es e n)
  have "e \<in> set (all_names (Dir es))" and "set (all_names n) \<subseteq> set (all_names (Dir es))"
    using at_child.hyps(2) by force+
  then show ?case using at_child.IH by auto
qed

lemma walk_keys_named:
  assumes "(d, fl) \<in> set (walk_directories P fs start excl sb collect cl clm md prune)"
  shows "\<exists>ns. d = path_from P start ns \<and> set ns \<subseteq> set (all_names fs)"
proof -
  from assms have "key_ok P (case excl of None \<Rightarrow> [] | Some ps \<Rightarrow> ps) fs start md d"
    using walk_directories_inv[of P excl fs start md sb collect cl clm prune]
    by (auto simp: walk_inv_def)
  then show ?thesis using at_path_names by (fastforce simp: key_ok_def)
qed

lemma intercalate_inj:
  assumes "\<forall>p \<in> set xs. fslash \<notin> set p" and "\<forall>p \<in> set ys. fslash \<notin> set p"
    and "xs \<noteq> []" and "ys \<noteq> []" and "intercalate ''/'' xs = intercalate ''/'' ys"
  shows "xs = ys"
proof -
  have "xs = split_on fslash (intercalate ''/'' xs)"
    using split_on_intercalate[OF assms(1,3)] by (rule sym)
  also have "\<dots> = split_on fslash (intercalate ''/'' ys)" by (simp only: assms(5))
  also have "\<dots> = ys" by (rule split_on_intercalate[OF assms(2,4)])
  finally show ?thesis .
qed

lemma relstr_not_dot:
  assumes "\<forall>n \<in> set ns. proper_name n" and "ns \<noteq> []"
  shows "intercalate ''/'' ns \<noteq> ''.''"
proof
  assume a: "intercalate ''/'' ns = ''.''"
  have "\<forall>p \<in> set ns. fslash \<notin> set p" using assms(1) by (simp add: proper_name_def)
  then have "split_on fslash (intercalate ''/'' ns) = ns" using assms(2) by (rule split_on_intercalate)
  then have "ns = [''.'']" using a by simp
  then show False using assms(1) by (simp add: proper_name_def)
qed

lemma relstr_inj:
  assumes "\<forall>n \<in> set xs. proper_name n" and "\<forall>n \<in> set ys. proper_name n"
    and "relstr xs = relstr ys"
  shows "xs = ys"
proof (cases "xs = []")
  case True
  then show ?thesis using assms(3) relstr_not_dot[OF assms(2)] by (auto simp: relstr_def split: if_splits)
next
  case False
  then have "ys \<noteq> []" using assms(3) relstr_not_dot[OF assms(1)] by (auto simp: relstr_def split: if_splits)
  then show ?thesis using False assms
    by (intro intercalate_inj) (auto simp: relstr_def proper_name_def)
qed

lemma intercalate_Cons_proper:
  "proper_name n \<Longrightarrow> \<exists>c rest. intercalate ''/'' (n # ms) = c # rest \<and> c \<noteq> fslash"
  by (cases n; cases ms) (auto simp: proper_name_def)

lemma relstr_nonempty: "\<forall>n \<in> set ns. proper_name n \<Longrightarrow> relstr ns \<noteq> []"
proof (cases ns)
  case Nil
  then show ?thesis by (simp add: relstr_def)
next
  case (Cons n ms)
  assume "\<forall>n \<in> set ns. proper_name n"
  then have "proper_name n" using Cons by simp
  then show ?thesis using intercalate_Cons_proper[of n ms] Cons by (auto simp: relstr_def)
qed

lemma relstr_not_abs: "\<forall>n \<in> set ns. proper_name n \<Longrightarrow> \<not> posix_isabs (relstr ns)"
proof (cases ns)
  case Nil
  then show ?thesis by (simp add: relstr_def posix_isabs_def)
next
  case (Cons n ms)
  assume "\<forall>n \<in> set ns. proper_name n"
  then have "proper_name n" using Cons by simp
  then show ?thesis using intercalate_Cons_proper[of n ms] Cons
    by (auto simp: relstr_def posix_isabs_def)
qed

lemma set_intercalate: "set (intercalate sep xs) \<subseteq> set sep \<union> \<Union> (set ` set xs)"
  by (induction sep xs rule: intercalate.induct) auto

lemma relstr_no_bslash:
  assumes "\<forall>n \<in> set ns. bslash \<notin> set n"
  shows "bslash \<notin> set (relstr ns)"
  using assms set_intercalate[of "''/''" ns] by (auto simp: relstr_def)

text \<open>The slash decorations alone, as \<open>apply_decorations\<close> applies them without a leader option.\<close>

lemma apply_decorations_no_leader_option:
  assumes "NoLeader \<notin> decs" and "RelLeader \<notin> decs"
  shows "apply_decorations p decs =
     (if Unix \<in> decs then replace_char bslash fslash p
      else if Windows \<in> decs then replace_char fslash bslash p else p)"
  using assms by (simp add: apply_decorations_def)

lemma replace_char_append: "replace_char a b (xs @ ys) = replace_char a b xs @ replace_char a b ys"
  by (simp add: replace_char_def)

lemma length_replace_char [simp]: "length (replace_char a b xs) = length xs"
  by (simp add: replace_char_def)

lemma replace_char_absent: "a \<notin> set xs \<Longrightarrow> replace_char a b xs = xs"
  by (induction xs) (auto simp: replace_char_def)

lemma replace_char_inj:
  assumes "b \<notin> set xs" and "b \<notin> set ys" and "replace_char a b xs = replace_char a b ys"
  shows "xs = ys"
  using assms
proof (induction xs arbitrary: ys)
  case Nil
  then show ?case by (simp add: replace_char_def)
next
  case (Cons x xs)
  then obtain y ys' where ys: "ys = y # ys'" by (cases ys) (auto simp: replace_char_def)
  have "x = y" using Cons.prems ys by (auto simp: replace_char_def split: if_splits)
  moreover have "xs = ys'" using Cons.IH[of ys'] Cons.prems ys by (auto simp: replace_char_def)
  ultimately show ?case using ys by simp
qed

lemma slash_decoration_inj:
  assumes "NoLeader \<notin> decs" and "RelLeader \<notin> decs"
    and "Unix \<in> decs \<or> Windows \<in> decs \<longrightarrow> bslash \<notin> set x \<and> bslash \<notin> set y"
    and "apply_decorations (pre @ x) decs = apply_decorations (pre @ y) decs"
  shows "x = y"
proof -
  note d = apply_decorations_no_leader_option[OF assms(1,2)]
  show ?thesis
  proof (cases "Unix \<in> decs")
    case True
    then have "replace_char bslash fslash x = replace_char bslash fslash y"
      using assms(4) by (simp add: d replace_char_append)
    then show ?thesis using True assms(3) by (simp add: replace_char_absent)
  next
    case False
    show ?thesis
    proof (cases "Windows \<in> decs")
      case True
      then have "replace_char fslash bslash x = replace_char fslash bslash y"
        using assms(4) False by (simp add: d replace_char_append)
      then show ?thesis using True assms(3) by (intro replace_char_inj[of bslash x y fslash]) auto
    next
      case F2: False
      then show ?thesis using assms(4) False by (simp add: d)
    qed
  qed
qed

lemma slash_decoration_length:
  assumes "NoLeader \<notin> decs" and "RelLeader \<notin> decs"
  shows "length (apply_decorations p decs) = length p"
  by (simp add: apply_decorations_no_leader_option[OF assms])

text \<open>The key of the directory \<open>ns\<close> below an absolute start path, by path style.\<close>

lemma posix_relpath_of_names:
  assumes "posix_isabs start" and "\<forall>n \<in> set ns. proper_name n"
  shows "posix_relpath cwd (posix_abspath cwd (path_from (posix cwd fnm mt) start ns)) start = relstr ns"
proof -
  let ?d = "path_from (posix cwd fnm mt) start ns"
  have d: "posix_isabs ?d" "ncomps ?d = ncomps start @ ns"
    using path_from_posix[OF assms, of cwd fnm mt] by simp_all
  have "posix_isabs (posix_abspath cwd ?d)" and "ncomps (posix_abspath cwd ?d) = ncomps start @ ns"
    using posix_abspath_abs(1,2)[OF d(1)] d(2) by simp_all
  then show ?thesis
    using posix_relpath_below[OF assms(1), of _ ns] rel_of_names[OF assms(2)]
    by (simp add: relstr_def)
qed

lemma posix_join_relstr:
  assumes "\<forall>n \<in> set ns. proper_name n"
  shows "\<exists>pre. \<forall>ms. (\<forall>n \<in> set ms. proper_name n) \<longrightarrow> posix_join label (relstr ms) = pre @ relstr ms"
proof (cases "label = [] \<or> last label = fslash")
  case True
  then have "\<forall>ms. (\<forall>n \<in> set ms. proper_name n) \<longrightarrow> posix_join label (relstr ms) = label @ relstr ms"
    using relstr_not_abs by (auto simp: posix_join_def)
  then show ?thesis by blast
next
  case False
  then have "\<forall>ms. (\<forall>n \<in> set ms. proper_name n) \<longrightarrow>
      posix_join label (relstr ms) = (label @ [fslash]) @ relstr ms"
    using relstr_not_abs by (auto simp: posix_join_def)
  then show ?thesis by blast
qed

lemma posix_dir_key_full:
  assumes "posix_isabs start" and "\<forall>n \<in> set ns. proper_name n"
  shows "ncomps (convert_dir_key (posix cwd fnm mt) start Full decs bl
            (os_abspath (posix cwd fnm mt) (path_from (posix cwd fnm mt) start ns)))
         = ncomps start @ ns"
proof -
  let ?d = "path_from (posix cwd fnm mt) start ns"
  have d: "posix_isabs ?d" "ncomps ?d = ncomps start @ ns"
    using path_from_posix[OF assms, of cwd fnm mt] by simp_all
  have "ncomps (posix_abspath cwd ?d) = ncomps start @ ns"
    using posix_abspath_abs(2)[OF d(1), of cwd] d(2) by simp
  moreover have "convert_dir_key (posix cwd fnm mt) start Full decs bl
            (os_abspath (posix cwd fnm mt) ?d) = posix_abspath cwd ?d"
    by (simp add: convert_dir_key_def posix_def)
  ultimately show ?thesis by simp
qed

lemma posix_dir_key_rel:
  assumes "posix_isabs start" and "\<forall>n \<in> set ns. proper_name n"
  shows "convert_dir_key (posix cwd fnm mt) start Rel decs bl
            (os_abspath (posix cwd fnm mt) (path_from (posix cwd fnm mt) start ns))
         = apply_decorations (relstr ns) decs"
proof -
  let ?d = "path_from (posix cwd fnm mt) start ns"
  have a: "os_abspath (posix cwd fnm mt) ?d = posix_abspath cwd ?d" by (simp add: posix_def)
  have r: "os_relpath (posix cwd fnm mt) (posix_abspath cwd ?d) start = relstr ns"
    using posix_relpath_of_names[OF assms, of cwd fnm mt] by (simp add: posix_def)
  show ?thesis unfolding a convert_dir_key_def by (simp add: r)
qed

lemma posix_dir_key_rel_base:
  assumes "posix_isabs start" and "\<forall>n \<in> set ns. proper_name n"
  shows "convert_dir_key (posix cwd fnm mt) start RelBase decs bl
            (os_abspath (posix cwd fnm mt) (path_from (posix cwd fnm mt) start ns))
         = (if ns = [] then apply_decorations (label_of (posix cwd fnm mt) bl start) decs
            else apply_decorations (posix_join (label_of (posix cwd fnm mt) bl start) (relstr ns)) decs)"
proof -
  let ?d = "path_from (posix cwd fnm mt) start ns"
  have a: "os_abspath (posix cwd fnm mt) ?d = posix_abspath cwd ?d" by (simp add: posix_def)
  have r: "os_relpath (posix cwd fnm mt) (posix_abspath cwd ?d) start = relstr ns"
    using posix_relpath_of_names[OF assms, of cwd fnm mt] by (simp add: posix_def)
  have j: "os_join (posix cwd fnm mt) = posix_join" by (simp add: posix_def)
  have dot: "relstr ns = ''.'' \<longleftrightarrow> ns = []"
    using relstr_not_dot[OF assms(2)] by (auto simp: relstr_def)
  show ?thesis unfolding a convert_dir_key_def by (simp add: r j dot Let_def)
qed

lemma posix_join_prefix:
  "\<exists>pre. length label \<le> length pre \<and>
     (\<forall>ms. (\<forall>n \<in> set ms. proper_name n) \<longrightarrow> posix_join label (relstr ms) = pre @ relstr ms)"
proof (cases "label = [] \<or> last label = fslash")
  case True
  then have "\<forall>ms. (\<forall>n \<in> set ms. proper_name n) \<longrightarrow> posix_join label (relstr ms) = label @ relstr ms"
    using relstr_not_abs by (auto simp: posix_join_def)
  then show ?thesis by (intro exI[of _ label]) simp
next
  case False
  then have "\<forall>ms. (\<forall>n \<in> set ms. proper_name n) \<longrightarrow>
      posix_join label (relstr ms) = (label @ [fslash]) @ relstr ms"
    using relstr_not_abs by (auto simp: posix_join_def)
  then show ?thesis by (intro exI[of _ "label @ [fslash]"]) simp
qed

lemma rel_key_inj:
  assumes xs: "\<forall>n \<in> set xs. proper_name n" and ys: "\<forall>n \<in> set ys. proper_name n"
    and nl: "NoLeader \<notin> decs" "RelLeader \<notin> decs"
    and bs: "Unix \<in> decs \<or> Windows \<in> decs \<longrightarrow>
                (\<forall>n \<in> set xs. bslash \<notin> set n) \<and> (\<forall>n \<in> set ys. bslash \<notin> set n)"
    and eq: "apply_decorations (pre @ relstr xs) decs = apply_decorations (pre @ relstr ys) decs"
  shows "xs = ys"
proof -
  have "Unix \<in> decs \<or> Windows \<in> decs \<longrightarrow>
        bslash \<notin> set (relstr xs) \<and> bslash \<notin> set (relstr ys)"
    using bs relstr_no_bslash by blast
  with nl have "relstr xs = relstr ys" using eq by (rule slash_decoration_inj)
  with xs ys show ?thesis by (rule relstr_inj)
qed

lemma rel_base_key_inj:
  assumes xs: "\<forall>n \<in> set xs. proper_name n" and ys: "\<forall>n \<in> set ys. proper_name n"
    and nl: "NoLeader \<notin> decs" "RelLeader \<notin> decs"
    and bs: "Unix \<in> decs \<or> Windows \<in> decs \<longrightarrow>
                (\<forall>n \<in> set xs. bslash \<notin> set n) \<and> (\<forall>n \<in> set ys. bslash \<notin> set n)"
    and eq: "(if xs = [] then apply_decorations label decs
              else apply_decorations (posix_join label (relstr xs)) decs)
           = (if ys = [] then apply_decorations label decs
              else apply_decorations (posix_join label (relstr ys)) decs)"
  shows "xs = ys"
proof -
  obtain pre where len: "length label \<le> length pre"
    and pre: "\<And>ms. \<forall>n \<in> set ms. proper_name n \<Longrightarrow> posix_join label (relstr ms) = pre @ relstr ms"
    using posix_join_prefix[of label] by blast
  have L: "length (apply_decorations p decs) = length p" for p
    using nl by (rule slash_decoration_length)
  have pos: "length (relstr ms) > 0" if "\<forall>n \<in> set ms. proper_name n" for ms
    using relstr_nonempty[OF that] by simp
  show ?thesis
  proof (cases "xs = []")
    case True
    show ?thesis
    proof (cases "ys = []")
      case True
      then show ?thesis using \<open>xs = []\<close> by simp
    next
      case False
      then have "apply_decorations label decs = apply_decorations (pre @ relstr ys) decs"
        using eq True pre[OF ys] by simp
      then have "length label = length (pre @ relstr ys)" using L by metis
      then show ?thesis using len pos[OF ys] by simp
    qed
  next
    case False
    show ?thesis
    proof (cases "ys = []")
      case True
      then have "apply_decorations (pre @ relstr xs) decs = apply_decorations label decs"
        using eq False pre[OF xs] by simp
      then have "length (pre @ relstr xs) = length label" using L by metis
      then show ?thesis using len pos[OF xs] by simp
    next
      case F2: False
      then have "apply_decorations (pre @ relstr xs) decs = apply_decorations (pre @ relstr ys) decs"
        using eq False pre[OF xs] pre[OF ys] by simp
      with xs ys nl bs show ?thesis by (rule rel_key_inj)
    qed
  qed
qed

lemma posix_key_inj:
  assumes abs: "posix_isabs start"
    and xs: "\<forall>n \<in> set xs. proper_name n" and ys: "\<forall>n \<in> set ys. proper_name n"
    and style: "st = Full \<or>
        ((st = Rel \<or> st = RelBase) \<and> NoLeader \<notin> decs \<and> RelLeader \<notin> decs
          \<and> (Unix \<in> decs \<or> Windows \<in> decs \<longrightarrow>
                (\<forall>n \<in> set xs. bslash \<notin> set n) \<and> (\<forall>n \<in> set ys. bslash \<notin> set n)))"
    and eq: "convert_dir_key (posix cwd fnm mt) start st decs bl
                (os_abspath (posix cwd fnm mt) (path_from (posix cwd fnm mt) start xs))
           = convert_dir_key (posix cwd fnm mt) start st decs bl
                (os_abspath (posix cwd fnm mt) (path_from (posix cwd fnm mt) start ys))"
  shows "xs = ys"
proof (cases st)
  case Full
  have "ncomps start @ xs = ncomps (convert_dir_key (posix cwd fnm mt) start Full decs bl
                (os_abspath (posix cwd fnm mt) (path_from (posix cwd fnm mt) start xs)))"
    by (rule posix_dir_key_full[OF abs xs, symmetric])
  also have "\<dots> = ncomps (convert_dir_key (posix cwd fnm mt) start Full decs bl
                (os_abspath (posix cwd fnm mt) (path_from (posix cwd fnm mt) start ys)))"
    using eq unfolding Full by (rule arg_cong)
  also have "\<dots> = ncomps start @ ys" by (rule posix_dir_key_full[OF abs ys])
  finally show ?thesis by (simp only: same_append_eq)
next
  case Rel
  then have c: "NoLeader \<notin> decs" "RelLeader \<notin> decs"
      "Unix \<in> decs \<or> Windows \<in> decs \<longrightarrow>
                (\<forall>n \<in> set xs. bslash \<notin> set n) \<and> (\<forall>n \<in> set ys. bslash \<notin> set n)"
    using style by blast+
  have "apply_decorations (relstr xs) decs = convert_dir_key (posix cwd fnm mt) start Rel decs bl
                (os_abspath (posix cwd fnm mt) (path_from (posix cwd fnm mt) start xs))"
    by (rule posix_dir_key_rel[OF abs xs, symmetric])
  also have "\<dots> = convert_dir_key (posix cwd fnm mt) start Rel decs bl
                (os_abspath (posix cwd fnm mt) (path_from (posix cwd fnm mt) start ys))"
    using eq unfolding Rel .
  also have "\<dots> = apply_decorations (relstr ys) decs" by (rule posix_dir_key_rel[OF abs ys])
  finally have "apply_decorations ([] @ relstr xs) decs = apply_decorations ([] @ relstr ys) decs"
    by (simp only: append_Nil)
  with xs ys c show ?thesis by (rule rel_key_inj)
next
  case RelBase
  then have c: "NoLeader \<notin> decs" "RelLeader \<notin> decs"
      "Unix \<in> decs \<or> Windows \<in> decs \<longrightarrow>
                (\<forall>n \<in> set xs. bslash \<notin> set n) \<and> (\<forall>n \<in> set ys. bslash \<notin> set n)"
    using style by blast+
  let ?label = "label_of (posix cwd fnm mt) bl start"
  have "(if xs = [] then apply_decorations ?label decs
              else apply_decorations (posix_join ?label (relstr xs)) decs)
          = convert_dir_key (posix cwd fnm mt) start RelBase decs bl
                (os_abspath (posix cwd fnm mt) (path_from (posix cwd fnm mt) start xs))"
    by (rule posix_dir_key_rel_base[OF abs xs, symmetric])
  also have "\<dots> = convert_dir_key (posix cwd fnm mt) start RelBase decs bl
                (os_abspath (posix cwd fnm mt) (path_from (posix cwd fnm mt) start ys))"
    using eq unfolding RelBase .
  also have "\<dots> = (if ys = [] then apply_decorations ?label decs
              else apply_decorations (posix_join ?label (relstr ys)) decs)"
    by (rule posix_dir_key_rel_base[OF abs ys])
  finally have "(if xs = [] then apply_decorations ?label decs
              else apply_decorations (posix_join ?label (relstr xs)) decs)
           = (if ys = [] then apply_decorations ?label decs
              else apply_decorations (posix_join ?label (relstr ys)) decs)" .
  with xs ys c show ?thesis by (rule rel_base_key_inj)
next
  case StyleFilesOnly
  then show ?thesis using style by simp
qed
lemma adjust_file_list_same_drive:
  assumes "\<And>a b. same_drive P a b"
  shows "adjust_file_list P start st decs strict bl fl =
     Inr (map (\<lambda>f. convert_file P start st decs bl (os_abspath P f)) fl)"
  by (induction fl) (simp_all add: adjust_file_def assms)

lemma adjust_items_same_drive:
  assumes "\<And>a b. same_drive P a b"
  shows "adjust_items P start st decs strict bl items adj =
     Inr (fold (\<lambda>(d, fl) a.
                  AList.update (convert_dir_key P start st decs bl (os_abspath P d))
                    (map (\<lambda>f. convert_file P start st decs bl (os_abspath P f)) fl) a)
            items adj)"
  by (induction items arbitrary: adj)
     (auto simp: adjust_file_list_same_drive[OF assms] adjust_dir_key_def assms)

lemma update_fresh: "k \<notin> fst ` set al \<Longrightarrow> AList.update k v al = al @ [(k, v)]"
  by (induction al) auto

lemma fold_update_fresh:
  assumes "distinct (map K (map fst items))"
    and "\<forall>d \<in> fst ` set items. K d \<notin> fst ` set acc"
  shows "fold (\<lambda>(d, fl) a. AList.update (K d) (G fl) a) items acc
         = acc @ map (\<lambda>(d, fl). (K d, G fl)) items"
  using assms
proof (induction items arbitrary: acc)
  case Nil
  then show ?case by simp
next
  case (Cons it items)
  obtain d fl where it: "it = (d, fl)" by (cases it)
  have fresh: "K d \<notin> fst ` set acc" using Cons.prems(2) it by simp
  have d': "distinct (map K (map fst items))" using Cons.prems(1) by simp
  have f': "\<forall>d' \<in> fst ` set items. K d' \<notin> fst ` set (acc @ [(K d, G fl)])"
    using Cons.prems it by (auto simp: image_iff)
  have "fold (\<lambda>(d, fl) a. AList.update (K d) (G fl) a) (it # items) acc
      = fold (\<lambda>(d, fl) a. AList.update (K d) (G fl) a) items (acc @ [(K d, G fl)])"
    using fresh by (simp add: it update_fresh)
  also have "\<dots> = (acc @ [(K d, G fl)]) @ map (\<lambda>(d, fl). (K d, G fl)) items"
    using d' f' by (rule Cons.IH)
  finally show ?case by (simp add: it)
qed

text \<open>
  C8. On POSIX, for a walk from an absolute start path of a tree whose names are proper
  listing names: under \<open>full\<close>, for any decoration set, and under \<open>rel\<close> or \<open>rel-base\<close>
  when neither \<open>no-leader\<close> nor \<open>rel-leader\<close> is selected and, if \<open>unix\<close> or \<open>windows\<close>
  is selected, no name contains a backslash, the path adjuster succeeds, maps distinct
  directories of the walker's map to distinct keys, and returns exactly as many entries
  as the walker's map has.
\<close>

theorem rendered_keys_distinct:
  assumes "P = posix cwd fnm mt" and "posix_isabs start"
    and "\<forall>n \<in> set (all_names fs). proper_name n"
    and "path_style = Full \<or>
        ((path_style = Rel \<or> path_style = RelBase) \<and> NoLeader \<notin> decs \<and> RelLeader \<notin> decs
          \<and> (Unix \<in> decs \<or> Windows \<in> decs \<longrightarrow> (\<forall>n \<in> set (all_names fs). bslash \<notin> set n)))"
    and "raw = walk_directories P fs start excl sort_by collect cl clm max_depth prune"
  shows "\<exists>adjusted.
           adjust_paths P raw start path_style decs collect strict bl = Inr adjusted
         \<and> length adjusted = length raw
         \<and> distinct (map fst adjusted)
         \<and> map fst adjusted
             = map (\<lambda>d. convert_dir_key P start path_style decs bl (os_abspath P d)) (map fst raw)"
proof -
  define K where "K = (\<lambda>d. convert_dir_key P start path_style decs bl (os_abspath P d))"
  define G where "G = map (\<lambda>f. convert_file P start path_style decs bl (os_abspath P f))"
  have sd: "\<And>a b. same_drive P a b" by (simp add: assms(1))
  have inj: "inj_on K (fst ` set raw)"
  proof (rule inj_onI)
    fix d1 d2 assume d1: "d1 \<in> fst ` set raw" and d2: "d2 \<in> fst ` set raw" and eq: "K d1 = K d2"
    from d1 obtain xs where xs: "d1 = path_from P start xs" "set xs \<subseteq> set (all_names fs)"
      unfolding assms(5) using walk_keys_named by fastforce
    from d2 obtain ys where ys: "d2 = path_from P start ys" "set ys \<subseteq> set (all_names fs)"
      unfolding assms(5) using walk_keys_named by fastforce
    have px: "\<forall>n \<in> set xs. proper_name n" and py: "\<forall>n \<in> set ys. proper_name n"
      using xs(2) ys(2) assms(3) by blast+
    have st: "path_style = Full \<or>
        ((path_style = Rel \<or> path_style = RelBase) \<and> NoLeader \<notin> decs \<and> RelLeader \<notin> decs
          \<and> (Unix \<in> decs \<or> Windows \<in> decs \<longrightarrow>
                (\<forall>n \<in> set xs. bslash \<notin> set n) \<and> (\<forall>n \<in> set ys. bslash \<notin> set n)))"
      using assms(4) xs(2) ys(2) by blast
    have "convert_dir_key (posix cwd fnm mt) start path_style decs bl
                (os_abspath (posix cwd fnm mt) (path_from (posix cwd fnm mt) start xs))
           = convert_dir_key (posix cwd fnm mt) start path_style decs bl
                (os_abspath (posix cwd fnm mt) (path_from (posix cwd fnm mt) start ys))"
      using eq unfolding K_def xs(1) ys(1) assms(1) .
    with assms(2) px py st have "xs = ys" by (rule posix_key_inj)
    then show "d1 = d2" using xs(1) ys(1) by simp
  qed
  have draw: "distinct (map fst raw)" unfolding assms(5) by (rule walk_directories_distinct)
  have dK: "distinct (map K (map fst raw))"
  proof -
    have "inj_on K (set (map fst raw))" using inj by simp
    with draw show ?thesis by (simp only: distinct_map[of K "map fst raw"] simp_thms)
  qed
  have "adjust_paths P raw start path_style decs collect strict bl
      = Inr (fold (\<lambda>(d, fl) a. AList.update (K d) (G fl) a) raw [])"
    unfolding adjust_paths_def adjust_items_same_drive[OF sd] K_def G_def ..
  also have "fold (\<lambda>(d, fl) a. AList.update (K d) (G fl) a) raw []
      = [] @ map (\<lambda>(d, fl). (K d, G fl)) raw"
    using dK by (rule fold_update_fresh) simp
  finally have res: "adjust_paths P raw start path_style decs collect strict bl
      = Inr (map (\<lambda>(d, fl). (K d, G fl)) raw)" by simp
  have keys: "map fst (map (\<lambda>(d, fl). (K d, G fl)) raw) = map K (map fst raw)"
    by (induction raw) auto
  have dist: "distinct (map fst (map (\<lambda>(d, fl). (K d, G fl)) raw))"
    using dK by (simp only: keys)
  have len: "length (map (\<lambda>(d, fl). (K d, G fl)) raw) = length raw" by simp
  have keys': "map fst (map (\<lambda>(d, fl). (K d, G fl)) raw)
      = map (\<lambda>d. convert_dir_key P start path_style decs bl (os_abspath P d)) (map fst raw)"
    using keys unfolding K_def .
  show ?thesis using res len dist keys' by blast
qed

theorem rendered_keys_distinct_witness:
  "\<exists>adjusted.
      adjust_paths demo_platform
        (walk_directories demo_platform depth_tree ''/r'' None IName CollectAll None None None None)
        ''/r'' RelBase {Unix} CollectAll False None = Inr adjusted
    \<and> length adjusted
        = length (walk_directories demo_platform depth_tree ''/r'' None IName CollectAll None None None None)
    \<and> distinct (map fst adjusted)
    \<and> map fst adjusted = [''r'', ''r/one'', ''r/one/two'']"
proof -
  let ?raw = "walk_directories demo_platform depth_tree ''/r'' None IName CollectAll None None None None"
  have p: "demo_platform = posix ''/'' glob_match (\<lambda>p. 0)" by (simp add: demo_platform_def)
  have a: "posix_isabs ''/r''" by (simp add: posix_isabs_def)
  have n: "\<forall>n \<in> set (all_names depth_tree). proper_name n"
    by (simp add: depth_tree_def proper_name_def)
  have s: "RelBase = Full \<or>
        ((RelBase = Rel \<or> RelBase = RelBase) \<and> NoLeader \<notin> {Unix} \<and> RelLeader \<notin> {Unix}
          \<and> (Unix \<in> {Unix} \<or> Windows \<in> {Unix} \<longrightarrow> (\<forall>n \<in> set (all_names depth_tree). bslash \<notin> set n)))"
    by (simp add: depth_tree_def)
  have k: "map (\<lambda>d. convert_dir_key demo_platform ''/r'' RelBase {Unix} None (os_abspath demo_platform d))
             (map fst ?raw) = [''r'', ''r/one'', ''r/one/two'']"
    unfolding demo_platform_def depth_tree_def by code_simp
  have r: "?raw = walk_directories demo_platform depth_tree ''/r'' None IName CollectAll None None None None"
    by (rule refl)
  from rendered_keys_distinct[OF p a n s r, where strict = False and bl = None]
  show ?thesis unfolding k .
qed

text \<open>
  As stated, C8 fails for the decoration \<open>unix\<close> on POSIX, where a name may contain a
  backslash: the directory named a-backslash-b and the directory \<open>b\<close> inside \<open>a\<close> are
  both rendered as \<open>a/b\<close>, and the adjusted map has one entry less than the walker's.
\<close>

theorem rendered_keys_counterexample:
  "\<not> (\<forall>decs adjusted.
        adjust_paths demo_platform
          (walk_directories demo_platform backslash_tree ''/r'' None IName CollectAll None None None None)
          ''/r'' Rel decs CollectAll False None = Inr adjusted
        \<longrightarrow> length adjusted
            = length (walk_directories demo_platform backslash_tree ''/r'' None IName CollectAll
                        None None None None))"
proof
  assume a: "\<forall>decs adjusted.
        adjust_paths demo_platform
          (walk_directories demo_platform backslash_tree ''/r'' None IName CollectAll None None None None)
          ''/r'' Rel decs CollectAll False None = Inr adjusted
        \<longrightarrow> length adjusted
            = length (walk_directories demo_platform backslash_tree ''/r'' None IName CollectAll
                        None None None None)"
  have w: "length (walk_directories demo_platform backslash_tree ''/r'' None IName CollectAll
                        None None None None) = 4"
    unfolding demo_platform_def backslash_tree_def by code_simp
  have r: "adjust_paths demo_platform
          (walk_directories demo_platform backslash_tree ''/r'' None IName CollectAll None None None None)
          ''/r'' Rel {Unix} CollectAll False None = Inr [(''.'', []), (''a'', []), (''a/b'', [])]"
    unfolding demo_platform_def backslash_tree_def by code_simp
  from a r have "length [(''.'', [] :: string list), (''a'', []), (''a/b'', [])] = (4::nat)"
    unfolding w by blast
  then show False by simp
qed

text \<open>
  With \<open>no-leader\<close> the keys collide too, through the stripping of leading dots: the
  directories \<open>.a\<close> and \<open>a\<close> are both rendered as \<open>a\<close>.
\<close>

lemma no_leader_key_collision:
  "walk_directories demo_platform dot_tree ''/r'' None IName CollectAll None None None None
     = [(''/r'', []), (''/r/.a'', []), (''/r/a'', [])]
   \<and> adjust_paths demo_platform
        (walk_directories demo_platform dot_tree ''/r'' None IName CollectAll None None None None)
        ''/r'' Rel {NoLeader} CollectAll False None = Inr [([], []), (''a'', [])]"
  unfolding demo_platform_def dot_tree_def by code_simp

section \<open>Properties of the renderer\<close>







lemma items_weight_sort [simp]: "items_weight (sort_subdirs m items) = items_weight items"
  by (simp add: items_weight_def sum_list_sort_subdirs)

lemma items_weight_Cons: "items_weight ((n, t) # rest) = tsize t + items_weight rest"
  by (simp add: items_weight_def)

lemma items_weight_Node: "items_weight kids < tsize (Node kids)"
  by (simp add: items_weight_def)

lemma set_sort_subdirs [simp]: "set (sort_subdirs m items) = set items"
  by (cases m) simp_all







text \<open>The whole pipeline on that input: the text rendered for the start directory \<open>/r/src\<close>.\<close>

lemma rel_base_leader_rendering:
  "collect_files demo_platform (Dir []) ''/r/src'' RelBase CollectAll IName {RelLeader}
       None None None False None None None = Inr [(''./src'', [])]
   \<and> format_collected_items demo_platform [(''./src'', [])] Summary CollectAll {RelLeader} RelBase
       IName 2 False = ''.:{'' @ [CHR 0x0A] @ ''  src:{'' @ [CHR 0x0A] @ ''  }'' @ [CHR 0x0A] @ ''}''"
  unfolding demo_platform_def by code_simp

section \<open>Where the rendered lines come from\<close>

lemma summary_line_brace:
  assumes "summary_line P C N F l"
  shows "summary_line P C N F (l @ ''}'')"
proof -
  from assms obtain n body k where l: "l = replicate n (CHR '' '') @ body @ replicate k (CHR ''}'')"
    and b: "body = ''}'' \<or> body = ''{''
           \<or> (\<exists>nm \<in> N. \<exists>sfx. (sfx = [] \<or> sfx = '':{'')
                 \<and> body = (if rc_path_style C = RelBase then nm
                            else apply_decorations nm (rc_decorations C)) @ sfx)
           \<or> (\<exists>f \<in> F. body = apply_decorations (os_basename P f) (rc_decorations C))"
    unfolding summary_line_def by blast
  have "replicate k (CHR ''}'') @ ''}'' = replicate (Suc k) (CHR ''}'')"
    by (simp add: replicate_append_same)
  then have "l @ ''}'' = replicate n (CHR '' '') @ body @ replicate (Suc k) (CHR ''}'')"
    unfolding l by simp
  then show ?thesis using b unfolding summary_line_def by blast
qed

lemma summary_line_body:
  assumes "body = ''}'' \<or> body = ''{''
           \<or> (\<exists>nm \<in> N. \<exists>sfx. (sfx = [] \<or> sfx = '':{'')
                 \<and> body = (if rc_path_style C = RelBase then nm
                            else apply_decorations nm (rc_decorations C)) @ sfx)
           \<or> (\<exists>f \<in> F. body = apply_decorations (os_basename P f) (rc_decorations C))"
  shows "summary_line P C N F (replicate n (CHR '' '') @ body)"
proof -
  have "replicate n (CHR '' '') @ body = replicate n (CHR '' '') @ body @ replicate 0 (CHR ''}'')"
    by simp
  then show ?thesis using assms unfolding summary_line_def by blast
qed

lemma summary_line_close: "summary_line P C N F (replicate n (CHR '' '') @ ''}'')"
  by (rule summary_line_body) simp

lemma summary_line_open: "summary_line P C N F (replicate n (CHR '' '') @ ''{'')"
  by (rule summary_line_body) simp

lemma summary_line_name:
  assumes "nm \<in> N" and "sfx = [] \<or> sfx = '':{''"
  shows "summary_line P C N F
           (replicate n (CHR '' '') @ (if rc_path_style C = RelBase then nm
                                       else apply_decorations nm (rc_decorations C)) @ sfx)"
  using assms by (intro summary_line_body) blast

lemma summary_line_file:
  assumes "f \<in> F"
  shows "summary_line P C N F
           ((replicate n (CHR '' '') @ replicate m (CHR '' ''))
              @ apply_decorations (os_basename P f) (rc_decorations C))"
proof -
  have "replicate n (CHR '' '') @ replicate m (CHR '' '') = replicate (n + m) (CHR '' '')"
    by (simp add: replicate_add)
  then show ?thesis using assms by (simp only:) (intro summary_line_body, blast)
qed

lemma all_add_brace:
  assumes "\<forall>l \<in> set ls. summary_line P C N F l"
  shows "\<forall>l \<in> set (add_brace ls). summary_line P C N F l"
proof (cases "ls = []")
  case True
  then show ?thesis by (simp add: add_brace_def)
next
  case False
  then have "last ls \<in> set ls" by simp
  then have "summary_line P C N F (last ls @ ''}'')" using assms summary_line_brace by blast
  moreover have "\<forall>l \<in> set (butlast ls). summary_line P C N F l"
    using assms by (auto dest: in_set_butlastD)
  ultimately show ?thesis using False by (auto simp: add_brace_def)
qed

lemma all_close:
  assumes "\<forall>l \<in> set ls. summary_line P C N F l"
  shows "\<forall>l \<in> set (if c then add_brace ls else ls @ [replicate n (CHR '' '') @ ''}'']).
           summary_line P C N F l"
  using assms all_add_brace[OF assms] summary_line_close[of P C N F n] by auto

lemma map_files_in:
  assumes "dict_files full_map \<subseteq> F"
  shows "set (case map_of full_map fp of None \<Rightarrow> [] | Some fl \<Rightarrow> fl) \<subseteq> F"
proof (cases "map_of full_map fp")
  case None
  then show ?thesis by simp
next
  case (Some fl)
  then have "(fp, fl) \<in> set full_map" by (rule map_of_SomeD)
  then have "set fl \<subseteq> dict_files full_map" unfolding dict_files_def by force
  then show ?thesis using Some assms by simp
qed

text \<open>One round of the loop of \<open>format_directory\<close> adds lines of these kinds only.\<close>

lemma item_lines:
  assumes J: "\<forall>l \<in> set lines. summary_line P C N F l"
    and nm: "subdir_name \<in> N"
    and fm: "dict_files full_map \<subseteq> F"
    and sub: "\<And>fp ls. \<forall>l \<in> set ls. summary_line P C N F l \<Longrightarrow>
               \<forall>l \<in> set (format_directory P C subsubtree full_map fp (Suc level) ls).
                 summary_line P C N F l"
  shows "\<exists>lines1. (\<forall>l \<in> set lines1. summary_line P C N F l)
      \<and> format_items P C ((subdir_name, subsubtree) # rest) full_map current_path level lines
          = format_items P C rest full_map current_path level lines1"
proof -
  define n where "n = nat (rc_indent_size C * int level)"
  define indent where "indent = replicate n (CHR '' '')"
  define fp where "fp = (if current_path \<noteq> [] then os_join P current_path subdir_name
                       else subdir_name)"
  define disp where "disp = (if rc_path_style C = RelBase then subdir_name
                         else apply_decorations subdir_name (rc_decorations C))"
  define close where "close = (\<lambda>ls. if rc_compact_braces C \<and> rest = [] then add_brace ls
                        else ls @ [indent @ ''}''])"
  define files where "files = (case map_of full_map fp of None \<Rightarrow> [] | Some fl \<Rightarrow> fl)"
  define shown where "shown = (\<lambda>f. (indent @ replicate (nat (rc_indent_size C)) (CHR '' ''))
                                    @ apply_decorations (os_basename P f) (rc_decorations C))"
  define sb where "sb = (\<lambda>ls. format_directory P C subsubtree full_map fp (Suc level) ls)"
  define SL where "SL = (\<lambda>ls. \<forall>l \<in> set ls. summary_line P C N F l)"
  note defs = n_def indent_def fp_def disp_def close_def files_def shown_def sb_def
  have J': "SL lines" using J by (simp add: SL_def)
  have cl: "SL ls \<Longrightarrow> SL (close ls)" for ls
    unfolding SL_def close_def indent_def by (rule all_close)
  have sbJ: "SL ls \<Longrightarrow> SL (sb ls)" for ls
    unfolding SL_def sb_def by (rule sub)
  have app: "SL ls \<Longrightarrow> summary_line P C N F l \<Longrightarrow> SL (ls @ [l])" for ls l
    by (simp add: SL_def)
  have apps: "SL ls \<Longrightarrow> SL ms \<Longrightarrow> SL (ls @ ms)" for ls ms
    by (auto simp: SL_def)
  have fin: "set files \<subseteq> F" unfolding files_def by (rule map_files_in[OF fm])
  have sh: "f \<in> set files \<Longrightarrow> summary_line P C N F (shown f)" for f
    unfolding shown_def indent_def using fin by (intro summary_line_file) blast
  have shs: "SL (map shown files)" using sh by (simp add: SL_def)
  have h0: "summary_line P C N F (indent @ disp @ [])"
    unfolding indent_def disp_def by (rule summary_line_name[OF nm]) simp
  have h1: "summary_line P C N F (indent @ disp @ '':{'')"
    unfolding indent_def disp_def by (rule summary_line_name[OF nm]) simp
  have op: "summary_line P C N F (indent @ ''{'')"
    unfolding indent_def by (rule summary_line_open)
  define lines1 where "lines1 =
            (case rc_collect C of
               DirsOnly \<Rightarrow>
                 if subsubtree \<noteq> Node [] then close (sb (lines @ [indent @ disp @ '':{'']))
                 else lines @ [indent @ disp]
             | FilesOnly \<Rightarrow> close (sb ((lines @ [indent @ ''{'']) @ map shown files))
             | DirsFirstLast \<Rightarrow>
                 (let l1 = (if subsubtree \<noteq> Node [] \<or> current_path \<noteq> []
                            then lines @ [indent @ disp @ '':{'']
                            else lines @ [indent @ disp]);
                      l2 = (if files \<noteq> []
                            then (l1 @ [shown (hd files)])
                                   @ (if length files > 1 then [shown (last files)] else [])
                            else l1);
                      l3 = (if subsubtree \<noteq> Node [] then sb l2 else l2)
                  in if subsubtree \<noteq> Node [] \<or> current_path \<noteq> [] then close l3 else l3)
             | CollectAll \<Rightarrow>
                 (let l1 = (lines @ [indent @ disp @ '':{'']) @ map shown files;
                      l2 = (if subsubtree \<noteq> Node [] then sb l1 else l1)
                  in close l2))"
  have eq: "format_items P C ((subdir_name, subsubtree) # rest) full_map current_path level lines
          = format_items P C rest full_map current_path level lines1"
    by (cases "rc_collect C") (simp_all add: Let_def defs lines1_def)
  have "SL lines1"
  proof (cases "rc_collect C")
    case DirsOnly
    have "SL (lines @ [indent @ disp @ '':{''])" by (rule app[OF J' h1])
    then have "SL (close (sb (lines @ [indent @ disp @ '':{''])))" by (intro cl sbJ)
    moreover have "SL (lines @ [indent @ disp])" using app[OF J' h0] by simp
    ultimately show ?thesis using DirsOnly by (simp add: lines1_def)
  next
    case FilesOnly
    have "SL ((lines @ [indent @ ''{'']) @ map shown files)"
      by (intro apps app J' op shs)
    then have "SL (close (sb ((lines @ [indent @ ''{'']) @ map shown files)))" by (intro cl sbJ)
    then show ?thesis using FilesOnly by (simp add: lines1_def)
  next
    case CollectAll
    define l1 where "l1 = (lines @ [indent @ disp @ '':{'']) @ map shown files"
    have a: "SL l1" unfolding l1_def by (intro apps app J' h1 shs)
    then have "SL (if subsubtree \<noteq> Node [] then sb l1 else l1)" by (simp add: sbJ)
    then have "SL (close (if subsubtree \<noteq> Node [] then sb l1 else l1))" by (rule cl)
    then show ?thesis using CollectAll unfolding lines1_def Let_def l1_def by simp
  next
    case DirsFirstLast
    define l1 where "l1 = (if subsubtree \<noteq> Node [] \<or> current_path \<noteq> []
                            then lines @ [indent @ disp @ '':{'']
                            else lines @ [indent @ disp])"
    define l2 where "l2 = (if files \<noteq> []
                            then (l1 @ [shown (hd files)])
                                   @ (if length files > 1 then [shown (last files)] else [])
                            else l1)"
    define l3 where "l3 = (if subsubtree \<noteq> Node [] then sb l2 else l2)"
    have a1: "SL l1" unfolding l1_def using app[OF J' h1] app[OF J' h0] by simp
    have a2: "SL l2"
    proof (cases "files = []")
      case True
      then show ?thesis using a1 by (simp add: l2_def)
    next
      case False
      then have "summary_line P C N F (shown (hd files))" "summary_line P C N F (shown (last files))"
        by (simp_all add: sh)
      then show ?thesis using a1 False by (auto simp: l2_def SL_def)
    qed
    have a3: "SL l3" unfolding l3_def using a2 by (simp add: sbJ)
    then have "SL (if subsubtree \<noteq> Node [] \<or> current_path \<noteq> [] then close l3 else l3)"
      by (simp add: cl)
    then show ?thesis using DirsFirstLast unfolding lines1_def Let_def l3_def l2_def l1_def by simp
  qed
  then show ?thesis using eq unfolding SL_def by blast
qed

lemma format_items_lines:
  assumes fm: "dict_files full_map \<subseteq> F"
  shows "\<forall>l \<in> set lines. summary_line P C N F l \<Longrightarrow>
     snd ` set (concat (map (\<lambda>p. (level, fst p) # segments (snd p) (Suc level)) items)) \<subseteq> N \<Longrightarrow>
     \<forall>l \<in> set (format_items P C items full_map current_path level lines). summary_line P C N F l"
proof (induction "items_weight items" arbitrary: items lines current_path level rule: less_induct)
  case less
  show ?case
  proof (cases items)
    case Nil
    then show ?thesis using less.prems(1) by simp
  next
    case (Cons it rest)
    obtain name sub where it: "it = (name, sub)" by (cases it)
    obtain kids where sub: "sub = Node kids" by (cases sub)
    have w: "items_weight items = tsize sub + items_weight rest"
      by (simp add: Cons it items_weight_Cons)
    have n_in: "name \<in> N" using less.prems(2) by (simp add: Cons it)
    have sub_in: "snd ` set (segments sub (Suc level)) \<subseteq> N"
      using less.prems(2) by (auto simp: Cons it)
    have rest_in: "snd ` set (concat (map (\<lambda>p. (level, fst p) # segments (snd p) (Suc level)) rest)) \<subseteq> N"
      using less.prems(2) by (auto simp: Cons it)
    have ih_sub: "\<forall>l \<in> set (format_directory P C sub full_map fp (Suc level) ls). summary_line P C N F l"
      if "\<forall>l \<in> set ls. summary_line P C N F l" for fp ls
    proof -
      have lt: "items_weight (sort_subdirs (rc_sort_by C) kids) < items_weight items"
        using items_weight_Node[of kids] w sub by simp
      have "set (concat (map (\<lambda>p. (Suc level, fst p) # segments (snd p) (Suc (Suc level)))
                     (sort_subdirs (rc_sort_by C) kids)))
          = set (segments sub (Suc level))"
        unfolding sub by simp
      then have "snd ` set (concat (map (\<lambda>p. (Suc level, fst p) # segments (snd p) (Suc (Suc level)))
                     (sort_subdirs (rc_sort_by C) kids))) \<subseteq> N"
        using sub_in by simp
      from less.hyps[OF lt that this] show ?thesis unfolding sub format_directory.simps .
    qed
    from item_lines[OF less.prems(1) n_in fm ih_sub, where rest = rest and current_path = current_path]
    obtain lines1 where l1: "\<forall>l \<in> set lines1. summary_line P C N F l"
      and eq: "format_items P C ((name, sub) # rest) full_map current_path level lines
          = format_items P C rest full_map current_path level lines1"
      by blast
    have "items_weight rest < items_weight items" using w tsize_pos[of sub] by simp
    from less.hyps[OF this l1 rest_in]
    show ?thesis using eq by (simp add: Cons it)
  qed
qed

lemma summary_lines_source:
  "\<forall>l \<in> set (format_directory P C t full_map current_path 0 []).
     summary_line P C (snd ` set (segments t 0)) (dict_files full_map) l"
proof -
  obtain kids where t: "t = Node kids" by (cases t)
  have "set (concat (map (\<lambda>p. (0, fst p) # segments (snd p) (Suc 0)) (sort_subdirs (rc_sort_by C) kids)))
      = set (segments t 0)"
    unfolding t by simp
  then have "snd ` set (concat (map (\<lambda>p. (0, fst p) # segments (snd p) (Suc 0))
                 (sort_subdirs (rc_sort_by C) kids))) \<subseteq> snd ` set (segments t 0)"
    by simp
  from format_items_lines[OF subset_refl _ this, of "[]" P C]
  show ?thesis unfolding t format_directory.simps by simp
qed

lemma rendered_lines_source:
  "\<exists>lines. format_collected_items P collected fmt collect decs st sort_by indent_size compact
        = intercalate [CHR 0x0A] lines
     \<and> (\<forall>l \<in> set lines.
          case fmt of
            Inline \<Rightarrow> inline_line decs collected l
          | Summary \<Rightarrow>
              summary_line P
                \<lparr> rc_collect = collect, rc_decorations = decs, rc_path_style = st,
                  rc_sort_by = sort_by, rc_indent_size = indent_size, rc_compact_braces = compact \<rparr>
                (snd ` set (segments (build_directory_tree P collected) 0)) (dict_files collected) l)"
proof (cases fmt)
  case Inline
  define lines where "lines =
     (if collect = DirsOnly
      then map (\<lambda>(dkey, flist). apply_decorations dkey decs) collected
      else concat (map (\<lambda>(dkey, flist). map (\<lambda>f. apply_decorations f decs) flist) collected))"
  have "format_collected_items P collected fmt collect decs st sort_by indent_size compact
        = intercalate [CHR 0x0A] lines"
    using Inline by (simp add: format_collected_items_def Let_def lines_def)
  moreover have "\<forall>l \<in> set lines. inline_line decs collected l"
    unfolding lines_def inline_line_def by (cases "collect = DirsOnly") force+
  ultimately show ?thesis using Inline by auto
next
  case Summary
  define C where "C = \<lparr> rc_collect = collect, rc_decorations = decs, rc_path_style = st,
                  rc_sort_by = sort_by, rc_indent_size = indent_size, rc_compact_braces = compact \<rparr>"
  define lines where "lines = format_directory P C (build_directory_tree P collected) collected [] 0 []"
  have "format_collected_items P collected fmt collect decs st sort_by indent_size compact
        = intercalate [CHR 0x0A] lines"
    using Summary by (simp add: format_collected_items_def Let_def lines_def C_def)
  moreover have "\<forall>l \<in> set lines.
      summary_line P C (snd ` set (segments (build_directory_tree P collected) 0)) (dict_files collected) l"
    unfolding lines_def by (rule summary_lines_source)
  ultimately show ?thesis using Summary unfolding C_def by auto
qed

section \<open>Depth limiting and exclusion, from the walker to the output\<close>

text \<open>
  C3. Depth limiting. With \<open>max_depth = Some m\<close>, a visit of a readable directory at a
  depth \<open>\<ge> m\<close> still records the directory, under \<open>collect = all\<close> with its full sorted
  file list after exclusion, and visits nothing below it. In the map of a whole walk,
  every key is reached from the start directory through at most \<open>m\<close> names, the start
  directory itself (no names, depth 0) apart. The same holds in the output: when
  \<open>collect_files\<close> returns the adjusted map, each of its entries is the path-style conversion
  of such a key of the walker's map, with files taken from the list of that key, and every
  node of the tree built from the adjusted map is a component of one of its keys; every
  line of the rendered text is a brace, the displayed name of a node of this tree or the
  decorated basename of a file of the adjusted map (summary), or a decorated key or file
  of the adjusted map (inline). A start directory that can be listed is recorded whatever
  \<open>m\<close> is.
\<close>

theorem max_depth_skip:
  "(m \<le> depth \<longrightarrow>
      recurse_dir P pats sort_by CollectAll (Some m) prune root (Dir es) depth collected =
        AList.update root (visit_files P pats sort_by root es) collected)
   \<and> ((d, fl) \<in> set (walk_directories P fs start excl sort_by collect cl clm (Some m) prune) \<longrightarrow>
        (\<exists>ns n. d = path_from P start ns \<and> at_path fs ns n
           \<and> (ns = [] \<or> int (length ns) \<le> m)))
   \<and> (collect_files P fs start path_style collect sort_by decs excl cl clm strict bl (Some m) prune
          = Inr adjusted
        \<and> (key, afs) \<in> set adjusted \<longrightarrow>
        (\<exists>ns n fl0 fl1.
           at_path fs ns n \<and> (ns = [] \<or> int (length ns) \<le> m)
           \<and> (path_from P start ns, fl0)
                \<in> set (walk_directories P fs start excl sort_by collect cl clm (Some m) prune)
           \<and> set fl1 \<subseteq> set fl0
           \<and> key = convert_dir_key P start path_style decs bl (os_abspath P (path_from P start ns))
           \<and> afs = map (\<lambda>f. convert_file P start path_style decs bl (os_abspath P f)) fl1))
   \<and> ((lvl, seg) \<in> set (segments (build_directory_tree P adjusted) 0) \<longrightarrow>
        (\<exists>k kfl. (k, kfl) \<in> set adjusted \<and> lvl < length (split_on (os_sep P) k)
           \<and> seg = split_on (os_sep P) k ! lvl))
   \<and> (\<exists>lines. format_collected_items P adjusted fmt collect decs path_style sort_by indent_size compact
                   = intercalate [CHR 0x0A] lines
           \<and> (\<forall>l \<in> set lines.
                 case fmt of
                   Inline \<Rightarrow> inline_line decs adjusted l
                 | Summary \<Rightarrow>
                     summary_line P
                       \<lparr> rc_collect = collect, rc_decorations = decs, rc_path_style = path_style,
                         rc_sort_by = sort_by, rc_indent_size = indent_size,
                         rc_compact_braces = compact \<rparr>
                       (snd ` set (segments (build_directory_tree P adjusted) 0))
                       (dict_files adjusted) l))
   \<and> start \<in> fst ` set (walk_directories P (Dir es0) start excl sort_by collect cl clm (Some m) prune)"
proof (intro conjI impI)
  assume "m \<le> depth"
  then have "on_visit_directory root (map (os_basename P) (visit_subdirs P pats sort_by root es))
          (map (os_basename P) (visit_files P pats sort_by root es)) depth (Some m) prune = Skip"
    by (simp add: on_visit_directory_def)
  then show "recurse_dir P pats sort_by CollectAll (Some m) prune root (Dir es) depth collected =
        AList.update root (visit_files P pats sort_by root es) collected"
    by (rule recurse_dir_Dir_skip)
next
  assume "(d, fl) \<in> set (walk_directories P fs start excl sort_by collect cl clm (Some m) prune)"
  then have "key_ok P (case excl of None \<Rightarrow> [] | Some ps \<Rightarrow> ps) fs start (Some m) d"
    using walk_directories_inv[of P excl fs start "Some m" sort_by collect cl clm prune]
    by (auto simp: walk_inv_def)
  then show "\<exists>ns n. d = path_from P start ns \<and> at_path fs ns n \<and> (ns = [] \<or> int (length ns) \<le> m)"
    by (auto simp: key_ok_def depth_ok_def)
next
  assume a: "collect_files P fs start path_style collect sort_by decs excl cl clm strict bl (Some m) prune
          = Inr adjusted
        \<and> (key, afs) \<in> set adjusted"
  from collect_files_provenance[OF conjunct1[OF a] conjunct2[OF a]]
  obtain d0 fl0 fl1
    where m0: "(d0, fl0) \<in> set (walk_directories P fs start excl sort_by collect cl clm (Some m) prune)"
      and s: "set fl1 \<subseteq> set fl0"
      and k: "key = convert_dir_key P start path_style decs bl (os_abspath P d0)"
      and f: "afs = map (\<lambda>f. convert_file P start path_style decs bl (os_abspath P f)) fl1"
    by blast
  from m0 have "key_ok P (case excl of None \<Rightarrow> [] | Some ps \<Rightarrow> ps) fs start (Some m) d0"
    using walk_directories_inv[of P excl fs start "Some m" sort_by collect cl clm prune]
    by (auto simp: walk_inv_def)
  then obtain ns n where "d0 = path_from P start ns" "at_path fs ns n" "ns = [] \<or> int (length ns) \<le> m"
    by (auto simp: key_ok_def depth_ok_def)
  then show "\<exists>ns n fl0 fl1.
           at_path fs ns n \<and> (ns = [] \<or> int (length ns) \<le> m)
           \<and> (path_from P start ns, fl0)
                \<in> set (walk_directories P fs start excl sort_by collect cl clm (Some m) prune)
           \<and> set fl1 \<subseteq> set fl0
           \<and> key = convert_dir_key P start path_style decs bl (os_abspath P (path_from P start ns))
           \<and> afs = map (\<lambda>f. convert_file P start path_style decs bl (os_abspath P f)) fl1"
    using m0 s k f by blast
next
  assume "(lvl, seg) \<in> set (segments (build_directory_tree P adjusted) 0)"
  then show "\<exists>k kfl. (k, kfl) \<in> set adjusted \<and> lvl < length (split_on (os_sep P) k)
           \<and> seg = split_on (os_sep P) k ! lvl"
    by (rule build_directory_tree_segments)
next
  show "\<exists>lines. format_collected_items P adjusted fmt collect decs path_style sort_by indent_size compact
                   = intercalate [CHR 0x0A] lines
           \<and> (\<forall>l \<in> set lines.
                 case fmt of
                   Inline \<Rightarrow> inline_line decs adjusted l
                 | Summary \<Rightarrow>
                     summary_line P
                       \<lparr> rc_collect = collect, rc_decorations = decs, rc_path_style = path_style,
                         rc_sort_by = sort_by, rc_indent_size = indent_size,
                         rc_compact_braces = compact \<rparr>
                       (snd ` set (segments (build_directory_tree P adjusted) 0))
                       (dict_files adjusted) l)"
    by (rule rendered_lines_source)
next
  show "start \<in> fst ` set (walk_directories P (Dir es0) start excl sort_by collect cl clm (Some m) prune)"
    by (rule walk_records_start)
qed

theorem max_depth_skip_witness:
  "walk_directories demo_platform depth_tree ''/r'' None IName CollectAll None None (Some 1) None
     = [(''/r'', [''/r/top.txt'']), (''/r/one'', [''/r/one/a.txt'', ''/r/one/b.txt''])]
   \<and> recurse_dir demo_platform [] IName CollectAll (Some 1) None ''/r/one''
        (Dir [(''b.txt'', File), (''a.txt'', File), (''two'', Dir [(''deep.txt'', File)])]) 1 []
       = [(''/r/one'', [''/r/one/a.txt'', ''/r/one/b.txt''])]
   \<and> (\<exists>ns n. ''/r/one'' = path_from demo_platform ''/r'' ns \<and> at_path depth_tree ns n
           \<and> (ns = [] \<or> int (length ns) \<le> 1))
   \<and> collect_files demo_platform depth_tree ''/r'' RelBase CollectAll IName {} None None None False None
        (Some 1) None
       = Inr [(''r'', [''r/top.txt'']), (''r/one'', [''r/one/a.txt'', ''r/one/b.txt''])]
   \<and> (\<exists>ns n fl0 fl1.
           at_path depth_tree ns n \<and> (ns = [] \<or> int (length ns) \<le> 1)
           \<and> (path_from demo_platform ''/r'' ns, fl0)
                \<in> set (walk_directories demo_platform depth_tree ''/r'' None IName CollectAll None None
                         (Some 1) None)
           \<and> set fl1 \<subseteq> set fl0
           \<and> ''r/one'' = convert_dir_key demo_platform ''/r'' RelBase {} None
                           (os_abspath demo_platform (path_from demo_platform ''/r'' ns))
           \<and> [''r/one/a.txt'', ''r/one/b.txt'']
               = map (\<lambda>f. convert_file demo_platform ''/r'' RelBase {} None (os_abspath demo_platform f)) fl1)
   \<and> (\<exists>k kfl. (k, kfl) \<in> set [(''r'', [''r/top.txt'']), (''r/one'', [''r/one/a.txt'', ''r/one/b.txt''])]
           \<and> 1 < length (split_on (os_sep demo_platform) k)
           \<and> ''one'' = split_on (os_sep demo_platform) k ! 1)"
proof -
  let ?es = "[(''b.txt'', File), (''a.txt'', File), (''two'', Dir [(''deep.txt'', File)])]"
  let ?adj = "[(''r'', [''r/top.txt'']), (''r/one'', [''r/one/a.txt'', ''r/one/b.txt''])]"
  have w: "walk_directories demo_platform depth_tree ''/r'' None IName CollectAll None None (Some 1) None
     = [(''/r'', [''/r/top.txt'']), (''/r/one'', [''/r/one/a.txt'', ''/r/one/b.txt''])]"
    unfolding demo_platform_def depth_tree_def by code_simp
  have v: "AList.update ''/r/one'' (visit_files demo_platform [] IName ''/r/one'' ?es) []
      = [(''/r/one'', [''/r/one/a.txt'', ''/r/one/b.txt''])]"
    unfolding demo_platform_def by code_simp
  have mem: "(''/r/one'', [''/r/one/a.txt'', ''/r/one/b.txt'']) \<in>
      set (walk_directories demo_platform depth_tree ''/r'' None IName CollectAll None None (Some 1) None)"
    unfolding w by simp
  have cf: "collect_files demo_platform depth_tree ''/r'' RelBase CollectAll IName {} None None None False
        None (Some 1) None = Inr ?adj"
    unfolding demo_platform_def depth_tree_def by code_simp
  have km: "(''r/one'', [''r/one/a.txt'', ''r/one/b.txt'']) \<in> set ?adj" by simp
  have sg: "(1, ''one'') \<in> set (segments (build_directory_tree demo_platform ?adj) 0)"
    unfolding demo_platform_def by code_simp
  have le: "(1::int) \<le> 1" by simp
  note t = max_depth_skip[where m = 1 and depth = 1 and P = demo_platform and pats = "[]"
      and sort_by = IName and prune = None and root = "''/r/one''" and es = ?es and collected = "[]"
      and d = "''/r/one''" and fl = "[''/r/one/a.txt'', ''/r/one/b.txt'']" and fs = depth_tree
      and start = "''/r''" and excl = None and collect = CollectAll and cl = None and clm = None
      and path_style = RelBase and decs = "{}" and strict = False and bl = None and adjusted = ?adj
      and key = "''r/one''" and afs = "[''r/one/a.txt'', ''r/one/b.txt'']" and lvl = 1
      and seg = "''one''"]
  note c1 = mp[OF t[THEN conjunct1] le]
  note c2 = mp[OF t[THEN conjunct2, THEN conjunct1] mem]
  note c3 = mp[OF t[THEN conjunct2, THEN conjunct2, THEN conjunct1] conjI[OF cf km]]
  note c4 = mp[OF t[THEN conjunct2, THEN conjunct2, THEN conjunct2, THEN conjunct1] sg]
  show ?thesis using w c1[unfolded v] c2 cf c3 c4 by (intro conjI)
qed

text \<open>
  As stated, C3 fails for a negative \<open>max_depth\<close>: the start directory, at depth 0, is a
  key of the map although its depth exceeds the limit.
\<close>

theorem max_depth_counterexample:
  "\<not> (\<forall>m fs d fl.
        (d, fl) \<in> set (walk_directories demo_platform fs ''/r'' None IName CollectAll None None (Some m) None)
        \<longrightarrow> (\<exists>ns. d = path_from demo_platform ''/r'' ns \<and> int (length ns) \<le> m))"
proof
  assume a: "\<forall>m fs d fl.
        (d, fl) \<in> set (walk_directories demo_platform fs ''/r'' None IName CollectAll None None (Some m) None)
        \<longrightarrow> (\<exists>ns. d = path_from demo_platform ''/r'' ns \<and> int (length ns) \<le> m)"
  have w: "walk_directories demo_platform depth_tree ''/r'' None IName CollectAll None None (Some (- 1)) None
     = [(''/r'', [''/r/top.txt''])]"
    unfolding demo_platform_def depth_tree_def by code_simp
  have "(''/r'', [''/r/top.txt'']) \<in>
     set (walk_directories demo_platform depth_tree ''/r'' None IName CollectAll None None (Some (- 1)) None)"
    unfolding w by simp
  with a have "\<exists>ns. ''/r'' = path_from demo_platform ''/r'' ns \<and> int (length ns) \<le> - 1" by blast
  then show False by simp
qed

text \<open>
  C1. Exclusion. Only the children found by listing are tested against the patterns, the
  start directory itself never is: a start directory that can be listed is a key of the
  walker's map whatever its name. Every key \<open>d\<close> of the walker's map other than the start
  path, and every file in any list, is not excluded; every key is reached from the start
  path through a chain of directories none of which is excluded (the subtree of an
  excluded directory is absent), and every file is a child of its key. Nothing else
  reaches the output: when \<open>collect_files\<close> returns the adjusted map, each of its entries
  is the path-style conversion of such a key of the walker's map, with files taken from
  the list of that key; every node of the tree built from the adjusted map is a
  component of one of its keys; and every line of the rendered text is a brace, the
  displayed name of a node of this tree or the decorated basename of a file of the
  adjusted map (summary), or a decorated key or file of the adjusted map (inline). The
  converted names themselves are not tested against the patterns.
\<close>

theorem exclusion_invariant:
  assumes "pats = (case excl of None \<Rightarrow> [] | Some ps \<Rightarrow> ps)"
  shows "((d, fl) \<in> set (walk_directories P fs start excl sort_by collect cl clm max_depth prune) \<longrightarrow>
            (d = start \<or> \<not> is_excluded P pats d)
            \<and> (\<forall>f \<in> set fl. \<not> is_excluded P pats f \<and> (\<exists>e. f = os_join P d e))
            \<and> (\<exists>ns. d = path_from P start ns
                  \<and> (\<forall>k < length ns. \<not> is_excluded P pats (path_from P start (take (Suc k) ns)))))
    \<and> (collect_files P fs start path_style collect sort_by decs excl cl clm strict bl max_depth prune
          = Inr adjusted
        \<and> (key, afs) \<in> set adjusted \<longrightarrow>
          (\<exists>d0 fl0 fl1.
             (d0, fl0) \<in> set (walk_directories P fs start excl sort_by collect cl clm max_depth prune)
             \<and> set fl1 \<subseteq> set fl0
             \<and> (d0 = start \<or> \<not> is_excluded P pats d0)
             \<and> (\<forall>f \<in> set fl1. \<not> is_excluded P pats f)
             \<and> key = convert_dir_key P start path_style decs bl (os_abspath P d0)
             \<and> afs = map (\<lambda>f. convert_file P start path_style decs bl (os_abspath P f)) fl1))
    \<and> ((lvl, seg) \<in> set (segments (build_directory_tree P adjusted) 0) \<longrightarrow>
          (\<exists>k kfl. (k, kfl) \<in> set adjusted \<and> lvl < length (split_on (os_sep P) k)
             \<and> seg = split_on (os_sep P) k ! lvl))
    \<and> (\<exists>lines. format_collected_items P adjusted fmt collect decs path_style sort_by indent_size compact
                   = intercalate [CHR 0x0A] lines
           \<and> (\<forall>l \<in> set lines.
                 case fmt of
                   Inline \<Rightarrow> inline_line decs adjusted l
                 | Summary \<Rightarrow>
                     summary_line P
                       \<lparr> rc_collect = collect, rc_decorations = decs, rc_path_style = path_style,
                         rc_sort_by = sort_by, rc_indent_size = indent_size,
                         rc_compact_braces = compact \<rparr>
                       (snd ` set (segments (build_directory_tree P adjusted) 0))
                       (dict_files adjusted) l))
    \<and> start \<in> fst ` set (walk_directories P (Dir es0) start excl sort_by collect cl clm max_depth prune)"
proof -
  have walker: "(d = start \<or> \<not> is_excluded P pats d)
            \<and> (\<forall>f \<in> set fl. \<not> is_excluded P pats f \<and> (\<exists>e. f = os_join P d e))
            \<and> (\<exists>ns. d = path_from P start ns
                  \<and> (\<forall>k < length ns. \<not> is_excluded P pats (path_from P start (take (Suc k) ns))))"
    if m: "(d, fl) \<in> set (walk_directories P fs start excl sort_by collect cl clm max_depth prune)"
    for d fl
  proof -
    from m assms have k: "key_ok P pats fs start max_depth d" and f: "files_ok P pats d fl"
      using walk_directories_inv[of P excl fs start max_depth sort_by collect cl clm prune]
      by (auto simp: walk_inv_def)
    from k obtain ns where ns: "d = path_from P start ns" "chain_ok P pats start ns"
      by (auto simp: key_ok_def)
    have "d = start \<or> \<not> is_excluded P pats d"
    proof (cases "ns = []")
      case True
      then show ?thesis using ns(1) by (simp add: path_from_def)
    next
      case False
      then show ?thesis using chain_ok_last[OF ns(2)] ns(1) by simp
    qed
    moreover have "\<forall>f \<in> set fl. \<not> is_excluded P pats f \<and> (\<exists>e. f = os_join P d e)"
      using f by (simp add: files_ok_def)
    moreover have "\<exists>ns. d = path_from P start ns
            \<and> (\<forall>k < length ns. \<not> is_excluded P pats (path_from P start (take (Suc k) ns)))"
      using ns by (auto simp: chain_ok_def)
    ultimately show ?thesis by blast
  qed
  have converted: "\<exists>d0 fl0 fl1.
             (d0, fl0) \<in> set (walk_directories P fs start excl sort_by collect cl clm max_depth prune)
             \<and> set fl1 \<subseteq> set fl0
             \<and> (d0 = start \<or> \<not> is_excluded P pats d0)
             \<and> (\<forall>f \<in> set fl1. \<not> is_excluded P pats f)
             \<and> key = convert_dir_key P start path_style decs bl (os_abspath P d0)
             \<and> afs = map (\<lambda>f. convert_file P start path_style decs bl (os_abspath P f)) fl1"
    if a: "collect_files P fs start path_style collect sort_by decs excl cl clm strict bl max_depth prune
          = Inr adjusted \<and> (key, afs) \<in> set adjusted"
  proof -
    from collect_files_provenance[OF conjunct1[OF a] conjunct2[OF a]]
    obtain d0 fl0 fl1
      where m0: "(d0, fl0) \<in> set (walk_directories P fs start excl sort_by collect cl clm max_depth prune)"
        and s: "set fl1 \<subseteq> set fl0"
        and k: "key = convert_dir_key P start path_style decs bl (os_abspath P d0)"
        and f: "afs = map (\<lambda>f. convert_file P start path_style decs bl (os_abspath P f)) fl1"
      by blast
    from walker[OF m0] have "d0 = start \<or> \<not> is_excluded P pats d0"
      and "\<forall>f \<in> set fl0. \<not> is_excluded P pats f"
      by blast+
    then have "(d0 = start \<or> \<not> is_excluded P pats d0) \<and> (\<forall>f \<in> set fl1. \<not> is_excluded P pats f)"
      using s by blast
    then show ?thesis using m0 s k f by blast
  qed
  have nodes: "\<exists>k kfl. (k, kfl) \<in> set adjusted \<and> lvl < length (split_on (os_sep P) k)
             \<and> seg = split_on (os_sep P) k ! lvl"
    if "(lvl, seg) \<in> set (segments (build_directory_tree P adjusted) 0)"
    using that by (rule build_directory_tree_segments)
  have recorded: "start \<in> fst ` set (walk_directories P (Dir es0) start excl sort_by collect cl clm max_depth prune)"
    by (rule walk_records_start)
  have rendered: "\<exists>lines. format_collected_items P adjusted fmt collect decs path_style sort_by indent_size compact
                   = intercalate [CHR 0x0A] lines
           \<and> (\<forall>l \<in> set lines.
                 case fmt of
                   Inline \<Rightarrow> inline_line decs adjusted l
                 | Summary \<Rightarrow>
                     summary_line P
                       \<lparr> rc_collect = collect, rc_decorations = decs, rc_path_style = path_style,
                         rc_sort_by = sort_by, rc_indent_size = indent_size,
                         rc_compact_braces = compact \<rparr>
                       (snd ` set (segments (build_directory_tree P adjusted) 0))
                       (dict_files adjusted) l)"
    by (rule rendered_lines_source)
  show ?thesis
    by (rule conjI[OF impI[OF walker] conjI[OF impI[OF converted] conjI[OF impI[OF nodes]
          conjI[OF rendered recorded]]]])
qed

theorem exclusion_invariant_witness:
  "walk_directories demo_platform tmp_tree ''/r'' (Some [''*.tmp'']) IName CollectAll None None None None
     = [(''/r'', [''/r/A.txt'', ''/r/b.txt'']), (''/r/sub'', [''/r/sub/y''])]
   \<and> \<not> is_excluded demo_platform [''*.tmp''] ''/r/sub''
   \<and> \<not> is_excluded demo_platform [''*.tmp''] ''/r/sub/y''
   \<and> (\<exists>e. ''/r/sub/y'' = os_join demo_platform ''/r/sub'' e)
   \<and> (\<exists>ns. ''/r/sub'' = path_from demo_platform ''/r'' ns
          \<and> (\<forall>k < length ns. \<not> is_excluded demo_platform [''*.tmp'']
                 (path_from demo_platform ''/r'' (take (Suc k) ns))))
   \<and> collect_files demo_platform tmp_tree ''/r'' Rel CollectAll IName {} (Some [''*.tmp'']) None None
        False None None None
       = Inr [(''.'', [''A.txt'', ''b.txt'']), (''sub'', [''sub/y''])]
   \<and> (\<exists>d0 fl0 fl1.
          (d0, fl0) \<in> set (walk_directories demo_platform tmp_tree ''/r'' (Some [''*.tmp'']) IName
                             CollectAll None None None None)
          \<and> set fl1 \<subseteq> set fl0
          \<and> (d0 = ''/r'' \<or> \<not> is_excluded demo_platform [''*.tmp''] d0)
          \<and> (\<forall>f \<in> set fl1. \<not> is_excluded demo_platform [''*.tmp''] f)
          \<and> ''sub'' = convert_dir_key demo_platform ''/r'' Rel {} None (os_abspath demo_platform d0)
          \<and> [''sub/y'']
              = map (\<lambda>f. convert_file demo_platform ''/r'' Rel {} None (os_abspath demo_platform f)) fl1)
   \<and> (\<exists>k kfl. (k, kfl) \<in> set [(''.'', [''A.txt'', ''b.txt'']), (''sub'', [''sub/y''])]
          \<and> 0 < length (split_on (os_sep demo_platform) k)
          \<and> ''sub'' = split_on (os_sep demo_platform) k ! 0)"
proof -
  let ?adj = "[(''.'', [''A.txt'', ''b.txt'']), (''sub'', [''sub/y''])]"
  have pe: "[''*.tmp''] = (case Some [''*.tmp''] of None \<Rightarrow> [] | Some ps \<Rightarrow> ps)" by simp
  have w: "walk_directories demo_platform tmp_tree ''/r'' (Some [''*.tmp'']) IName CollectAll None None None None
     = [(''/r'', [''/r/A.txt'', ''/r/b.txt'']), (''/r/sub'', [''/r/sub/y''])]"
    unfolding demo_platform_def tmp_tree_def by code_simp
  have mem: "(''/r/sub'', [''/r/sub/y'']) \<in>
     set (walk_directories demo_platform tmp_tree ''/r'' (Some [''*.tmp'']) IName CollectAll None None None None)"
    unfolding w by simp
  have ne: "''/r/sub'' \<noteq> ''/r''" by simp
  have cf: "collect_files demo_platform tmp_tree ''/r'' Rel CollectAll IName {} (Some [''*.tmp'']) None None
        False None None None = Inr ?adj"
    unfolding demo_platform_def tmp_tree_def by code_simp
  have km: "(''sub'', [''sub/y'']) \<in> set ?adj" by simp
  have sg: "(0, ''sub'') \<in> set (segments (build_directory_tree demo_platform ?adj) 0)"
    unfolding demo_platform_def by code_simp
  note t = exclusion_invariant[OF pe, where P = demo_platform and d = "''/r/sub''"
      and fl = "[''/r/sub/y'']" and fs = tmp_tree and start = "''/r''" and sort_by = IName
      and collect = CollectAll and cl = None and clm = None and max_depth = None and prune = None
      and path_style = Rel and decs = "{}" and strict = False and bl = None and adjusted = ?adj
      and key = "''sub''" and afs = "[''sub/y'']" and lvl = 0 and seg = "''sub''"]
  note c1 = mp[OF t[THEN conjunct1] mem]
  note c2 = mp[OF t[THEN conjunct2, THEN conjunct1] conjI[OF cf km]]
  note c3 = mp[OF t[THEN conjunct2, THEN conjunct2, THEN conjunct1] sg]
  have p1: "\<not> is_excluded demo_platform [''*.tmp''] ''/r/sub''
     \<and> \<not> is_excluded demo_platform [''*.tmp''] ''/r/sub/y''
     \<and> (\<exists>e. ''/r/sub/y'' = os_join demo_platform ''/r/sub'' e)
     \<and> (\<exists>ns. ''/r/sub'' = path_from demo_platform ''/r'' ns
          \<and> (\<forall>k < length ns. \<not> is_excluded demo_platform [''*.tmp'']
                 (path_from demo_platform ''/r'' (take (Suc k) ns))))"
    using c1 ne by simp
  show ?thesis using w p1 cf c2 c3 by (intro conjI) blast+
qed

text \<open>
  As stated, C1 fails in three ways. The start directory is a key of the walker's map also
  when its own name matches a pattern. A converted file name can match a pattern that the
  file itself does not match: under \<open>rel\<close> with the decoration \<open>unix\<close>, the file named
  a-backslash-core, which the pattern "core" does not exclude, is rendered as "a/core".
  And under \<open>full\<close> the tree built from the adjusted keys has a node for every directory
  above the start path, here the hidden directory ".config", which no pattern was ever
  tested against.
\<close>

theorem exclusion_counterexample:
  "\<not> (\<forall>d fl.
        (d, fl) \<in> set (walk_directories demo_platform tmp_tree ''/r/foo.tmp'' (Some [''*.tmp''])
                        IName CollectAll None None None None)
        \<longrightarrow> \<not> is_excluded demo_platform [''*.tmp''] d)
   \<and> \<not> (\<forall>adjusted key afs af.
        collect_files demo_platform core_tree ''/r'' Rel CollectAll IName {Unix} (Some [''core''])
            None None False None None None = Inr adjusted
        \<and> (key, afs) \<in> set adjusted \<and> af \<in> set afs
        \<longrightarrow> \<not> is_excluded demo_platform [''core''] af)
   \<and> \<not> (\<forall>adjusted lvl seg.
        collect_files demo_platform app_tree ''/r/.config/app'' Full CollectAll IName {} (Some [''.*''])
            None None False None None None = Inr adjusted
        \<and> (lvl, seg) \<in> set (segments (build_directory_tree demo_platform adjusted) 0)
        \<longrightarrow> \<not> fn_match demo_platform seg ''.*'')"
proof (intro conjI notI)
  assume a: "\<forall>d fl.
        (d, fl) \<in> set (walk_directories demo_platform tmp_tree ''/r/foo.tmp'' (Some [''*.tmp''])
                        IName CollectAll None None None None)
        \<longrightarrow> \<not> is_excluded demo_platform [''*.tmp''] d"
  have w: "walk_directories demo_platform tmp_tree ''/r/foo.tmp'' (Some [''*.tmp''])
              IName CollectAll None None None None
     = [(''/r/foo.tmp'', [''/r/foo.tmp/A.txt'', ''/r/foo.tmp/b.txt'']),
        (''/r/foo.tmp/sub'', [''/r/foo.tmp/sub/y''])]"
    unfolding demo_platform_def tmp_tree_def by code_simp
  have e: "is_excluded demo_platform [''*.tmp''] ''/r/foo.tmp''"
    unfolding demo_platform_def by code_simp
  have "(''/r/foo.tmp'', [''/r/foo.tmp/A.txt'', ''/r/foo.tmp/b.txt'']) \<in>
     set (walk_directories demo_platform tmp_tree ''/r/foo.tmp'' (Some [''*.tmp''])
            IName CollectAll None None None None)"
    unfolding w by simp
  with a e show False by blast
next
  assume a: "\<forall>adjusted key afs af.
        collect_files demo_platform core_tree ''/r'' Rel CollectAll IName {Unix} (Some [''core''])
            None None False None None None = Inr adjusted
        \<and> (key, afs) \<in> set adjusted \<and> af \<in> set afs
        \<longrightarrow> \<not> is_excluded demo_platform [''core''] af"
  have cf: "collect_files demo_platform core_tree ''/r'' Rel CollectAll IName {Unix} (Some [''core''])
            None None False None None None = Inr [(''.'', [''a/core''])]"
    unfolding demo_platform_def core_tree_def by code_simp
  have e: "is_excluded demo_platform [''core''] ''a/core''"
    unfolding demo_platform_def by code_simp
  have m: "(''.'', [''a/core'']) \<in> set [(''.'', [''a/core''])]" "''a/core'' \<in> set [''a/core'']"
    by simp_all
  from a cf m e show False by blast
next
  assume a: "\<forall>adjusted lvl seg.
        collect_files demo_platform app_tree ''/r/.config/app'' Full CollectAll IName {} (Some [''.*''])
            None None False None None None = Inr adjusted
        \<and> (lvl, seg) \<in> set (segments (build_directory_tree demo_platform adjusted) 0)
        \<longrightarrow> \<not> fn_match demo_platform seg ''.*''"
  have cf: "collect_files demo_platform app_tree ''/r/.config/app'' Full CollectAll IName {} (Some [''.*''])
            None None False None None None = Inr [(''/r/.config/app'', [''/r/.config/app/f''])]"
    unfolding demo_platform_def app_tree_def by code_simp
  have s: "(2, ''.config'') \<in> set (segments (build_directory_tree demo_platform
              [(''/r/.config/app'', [''/r/.config/app/f''])]) 0)"
    unfolding demo_platform_def by code_simp
  have e: "fn_match demo_platform ''.config'' ''.*''"
    unfolding demo_platform_def by code_simp
  from a cf s e show False by blast
qed

text \<open>
  The walker's map of the second case holds the file under its own name, which the
  pattern does not match, and the inline text prints the converted name; the summary
  rendered in the third case prints the hidden directory.
\<close>

lemma converted_name_matches:
  "walk_directories demo_platform core_tree ''/r'' (Some [''core'']) IName CollectAll None None None None
     = [(''/r'', [''/r/a'' @ [bslash] @ ''core''])]
   \<and> \<not> is_excluded demo_platform [''core''] (''/r/a'' @ [bslash] @ ''core'')
   \<and> format_collected_items demo_platform [(''.'', [''a/core''])] Inline CollectAll {Unix} Rel IName 2 False
     = ''a/core''"
  unfolding demo_platform_def core_tree_def by code_simp

lemma ancestor_rendering:
  "format_collected_items demo_platform [(''/r/.config/app'', [''/r/.config/app/f''])]
      Summary CollectAll {} Full IName 2 False
     = intercalate [CHR 0x0A]
         ['':{'', ''  r:{'', ''    .config:{'', ''      app:{'', ''      }'', ''    }'', ''  }'', ''}'']"
  unfolding demo_platform_def by code_simp

end
